theory Spec2Isabelle
  imports
    Main
    "HOL-Library.Word"
    "HOL-Library.Multiset"
    "HOL-Library.Char_ord"
    "HOL-Library.List_Lexorder"
begin

section \<open>Data model (types.ts)\<close>

text \<open>
  A JavaScript string is modelled as a \<open>string\<close> whose characters are the code units
  U+0000..U+00FF; a \<open>Date\<close> is its time value (milliseconds since the epoch); the
  numbers of the ledger (\<open>chapterIndex\<close>, \<open>lastChapterIndex\<close>, \<open>size\<close>) are naturals,
  which is exact for a double below \<open>2 ^ 53\<close> (the \<open>order\<close> array bounds the number of
  appends far below that). A \<open>File\<close> is the list of its bytes, and the free-form \<open>meta\<close>
  record a list of pairs. The fields of a record carry a prefix (\<open>ev_\<close>, \<open>rep_\<close>, \<open>ref_\<close>,
  \<open>c_\<close>, ...), since \<open>id\<close>, \<open>size\<close> and \<open>type\<close> occur in several interfaces.
\<close>

type_synonym timestamp = int
type_synonym byte = "8 word"

datatype Jurisdiction = Global | UAE | SA | EU

datatype Verification = Verified_3_3 | Consensus_2_3 | Inconclusive_1_3

datatype ContradictionType = direct | metadata_mismatch | cross_doc_drift | omission

record Evidence =
  ev_id :: string
  ev_name :: string
  ev_size :: nat
  ev_type :: string
  ev_blob :: "byte list"
  ev_sha512 :: string
  ev_createdAt :: timestamp
  ev_jurisdiction :: Jurisdiction
  ev_timezone :: string
  ev_meta :: "(string \<times> string) list"
  ev_ocrText :: "string option"

record EvidenceRef =
  ref_id :: string
  ref_sha512 :: string

record Finding =
  f_title :: string
  f_trigger :: string
  f_source :: string
  f_rationale :: string
  f_verification :: "Verification option"

text \<open>\<open>Omit<Contradiction, 'verification'>\<close>, what one detector pass produces.\<close>

record RawContradiction =
  c_type :: ContradictionType
  c_actor :: "string option"
  c_claimA :: "string option"
  c_claimB :: "string option"
  c_sources :: "string list"
  c_explanation :: string

record Contradiction = RawContradiction +
  c_verification :: Verification

record TimelineEvent =
  t_date :: string
  t_event :: string
  t_sources :: "string list"

text \<open>The coordinates of a highlight are numbers that no operation modelled here reads;
  their type is left abstract.\<close>

typedecl coordinate

record Highlight =
  h_findingIndex :: nat
  h_boundingBox :: "(coordinate \<times> coordinate) list"

text \<open>\<open>Omit<Report, 'id' | 'createdAt' | 'updatedAt' | 'chapterIndex'>\<close>, the argument of
  \<open>saveReport\<close>, and the full \<open>Report\<close>.\<close>

record ReportInput =
  in_title :: string
  in_jurisdiction :: Jurisdiction
  in_timezone :: string
  in_evidenceRefs :: "EvidenceRef list"
  in_findings :: "Finding list"
  in_contradictions :: "Contradiction list"
  in_timeline :: "TimelineEvent list"
  in_pdfSha512 :: "string option"
  in_rawHtmlReport :: "string option"
  in_highlights :: "Highlight list option"

record Report =
  rep_id :: string
  rep_title :: string
  rep_chapterIndex :: nat
  rep_createdAt :: timestamp
  rep_updatedAt :: timestamp
  rep_jurisdiction :: Jurisdiction
  rep_timezone :: string
  rep_evidenceRefs :: "EvidenceRef list"
  rep_findings :: "Finding list"
  rep_contradictions :: "Contradiction list"
  rep_timeline :: "TimelineEvent list"
  rep_pdfSha512 :: "string option"
  rep_rawHtmlReport :: "string option"
  rep_highlights :: "Highlight list option"

record ReportsIndexMeta =
  meta_key :: string
  meta_order :: "string list"
  meta_lastChapterIndex :: nat


section \<open>Hashing service (calculateSHA512)\<close>

text \<open>
  \<open>crypto.subtle.digest('SHA-512', buffer)\<close> is a primitive of the platform: it is the
  parameter \<open>digest\<close>. The argument is a \<open>File | Blob\<close>, whose \<open>arrayBuffer()\<close> either
  yields its bytes or rejects, or (in the later version of the service) a string, which
  \<open>TextEncoder\<close> encodes as UTF-8.
\<close>

datatype request =
  GetMeta | PutMeta | PutReport | PutEvidence | GetAllReports | GetAllEvidence
  | GetEvidence | ReadBlob

datatype error = IOError request

datatype hash_input = Blob "error + byte list" | Str string

definition utf8_unit :: "char \<Rightarrow> byte list" where
  "utf8_unit c =
     (let n = of_char c :: nat
      in if n < 128 then [of_nat n]
         else [of_nat (192 + n div 64), of_nat (128 + n mod 64)])"

definition TextEncoder_encode :: "string \<Rightarrow> byte list" where
  "TextEncoder_encode s = concat (map utf8_unit s)"

definition hexDigit :: "nat \<Rightarrow> char" where
  "hexDigit d = ''0123456789abcdef'' ! (d mod 16)"

fun toString16 :: "nat \<Rightarrow> string" where
  "toString16 n =
     (if n < 16 then [hexDigit n] else toString16 (n div 16) @ [hexDigit (n mod 16)])"

declare toString16.simps [simp del]

definition padStart :: "nat \<Rightarrow> char \<Rightarrow> string \<Rightarrow> string" where
  "padStart n c s = replicate (n - length s) c @ s"

definition hashHex :: "byte list \<Rightarrow> string" where
  "hashHex hashArray = concat (map (\<lambda>b. padStart 2 CHR ''0'' (toString16 (unat b))) hashArray)"

definition calculateSHA512 :: "(byte list \<Rightarrow> byte list) \<Rightarrow> hash_input \<Rightarrow> error + string" where
  "calculateSHA512 digest fileOrBlob =
     (case fileOrBlob of
        Str s \<Rightarrow> Inr (hashHex (digest (TextEncoder_encode s)))
      | Blob (Inl e) \<Rightarrow> Inl e
      | Blob (Inr buffer) \<Rightarrow> Inr (hashHex (digest buffer)))"


section \<open>IndexedDB service\<close>

text \<open>
  The database has three object stores. \<open>evidence\<close> and \<open>reports\<close> are keyed by \<open>id\<close>:
  a store is the list of its records in ascending key order, which is what \<open>getAll\<close>
  returns, and \<open>put\<close> replaces the record that has the same key. Of the \<open>meta\<close> store only
  the record under the key \<open>'reports_index'\<close> is ever read or written.

  A request or transaction can fail; \<open>io q\<close> says that request \<open>q\<close> of the call fails,
  and the promise is then rejected with that error.
\<close>

record Store =
  evidence_store :: "Evidence list"
  reports_store :: "Report list"
  meta_store :: "ReportsIndexMeta option"

type_synonym io = "request \<Rightarrow> bool"

definition empty_store :: Store where
  "empty_store = \<lparr>evidence_store = [], reports_store = [], meta_store = None\<rparr>"

definition store_put :: "('a \<Rightarrow> string) \<Rightarrow> 'a \<Rightarrow> 'a list \<Rightarrow> 'a list" where
  "store_put key x xs = insort_key key x (filter (\<lambda>y. key y \<noteq> key x) xs)"

definition store_get :: "('a \<Rightarrow> string) \<Rightarrow> string \<Rightarrow> 'a list \<Rightarrow> 'a option" where
  "store_get key k xs = find (\<lambda>y. key y = k) xs"

text \<open>\<open>new Map(xs.map(x => [key(x), x]))\<close>: a later entry replaces an earlier one with
  the same key.\<close>

definition Map_of :: "('a \<Rightarrow> string) \<Rightarrow> 'a list \<Rightarrow> (string \<rightharpoonup> 'a)" where
  "Map_of key xs = map_of (rev (map (\<lambda>x. (key x, x)) xs))"

text \<open>\<open>saveEvidence\<close>: \<open>uuid\<close> is the value of \<open>crypto.randomUUID()\<close>, \<open>now\<close> of
  \<open>new Date()\<close>; a \<open>File\<close> is its name, MIME type and bytes.\<close>

definition saveEvidence ::
  "(byte list \<Rightarrow> byte list) \<Rightarrow> io \<Rightarrow> string \<Rightarrow> timestamp \<Rightarrow> string \<Rightarrow> string \<Rightarrow> byte list
     \<Rightarrow> Jurisdiction \<Rightarrow> string \<Rightarrow> Store \<Rightarrow> (error + Evidence) \<times> Store" where
  "saveEvidence digest io uuid now file_name file_type file_bytes jurisdiction timezone st =
     (case calculateSHA512 digest (Blob (if io ReadBlob then Inl (IOError ReadBlob) else Inr file_bytes)) of
        Inl e \<Rightarrow> (Inl e, st)
      | Inr sha512 \<Rightarrow>
          (let evidence = \<lparr>ev_id = uuid, ev_name = file_name, ev_size = length file_bytes,
                 ev_type = file_type, ev_blob = file_bytes, ev_sha512 = sha512,
                 ev_createdAt = now, ev_jurisdiction = jurisdiction, ev_timezone = timezone,
                 ev_meta = [], ev_ocrText = None\<rparr>
           in if io PutEvidence then (Inl (IOError PutEvidence), st)
              else (Inr evidence,
                    st\<lparr>evidence_store := store_put ev_id evidence (evidence_store st)\<rparr>)))"

definition updateEvidence :: "io \<Rightarrow> Evidence \<Rightarrow> Store \<Rightarrow> (error + Evidence) \<times> Store" where
  "updateEvidence io evidence st =
     (if io PutEvidence then (Inl (IOError PutEvidence), st)
      else (Inr evidence, st\<lparr>evidence_store := store_put ev_id evidence (evidence_store st)\<rparr>))"

definition getEvidenceById :: "io \<Rightarrow> string \<Rightarrow> Store \<Rightarrow> error + Evidence option" where
  "getEvidenceById io k st =
     (if io GetEvidence then Inl (IOError GetEvidence)
      else Inr (store_get ev_id k (evidence_store st)))"

text \<open>
  \<open>saveReport\<close> reads the index in one transaction on the \<open>meta\<close> store, writes the
  advanced index in the same transaction, and only when that transaction has completed
  puts the report in a second transaction on the \<open>reports\<close> store: when the second one
  fails, the index keeps the new id. \<open>createdAt\<close> and \<open>updatedAt\<close> are two readings of the
  clock.
\<close>

definition saveReport ::
  "io \<Rightarrow> string \<Rightarrow> timestamp \<Rightarrow> timestamp \<Rightarrow> ReportInput \<Rightarrow> Store \<Rightarrow> (error + Report) \<times> Store" where
  "saveReport io uuid now1 now2 report st =
     (if io GetMeta then (Inl (IOError GetMeta), st)
      else
        (let meta = (case meta_store st of
                       Some m \<Rightarrow> m
                     | None \<Rightarrow> \<lparr>meta_key = ''reports_index'', meta_order = [],
                                meta_lastChapterIndex = 0\<rparr>);
             nextChapterIndex = meta_lastChapterIndex meta + 1;
             fullReport = \<lparr>rep_id = uuid, rep_title = in_title report,
                 rep_chapterIndex = nextChapterIndex,
                 rep_createdAt = now1, rep_updatedAt = now2,
                 rep_jurisdiction = in_jurisdiction report, rep_timezone = in_timezone report,
                 rep_evidenceRefs = in_evidenceRefs report, rep_findings = in_findings report,
                 rep_contradictions = in_contradictions report,
                 rep_timeline = in_timeline report, rep_pdfSha512 = in_pdfSha512 report,
                 rep_rawHtmlReport = in_rawHtmlReport report,
                 rep_highlights = in_highlights report\<rparr>;
             meta' = meta\<lparr>meta_order := meta_order meta @ [rep_id fullReport],
                          meta_lastChapterIndex := nextChapterIndex\<rparr>
         in if io PutMeta then (Inl (IOError PutMeta), st)
            else
              (let st' = st\<lparr>meta_store := Some meta'\<rparr>
               in if io PutReport then (Inl (IOError PutReport), st')
                  else (Inr fullReport,
                        st'\<lparr>reports_store := store_put rep_id fullReport (reports_store st')\<rparr>))))"

text \<open>The ids referenced by a list of reports: both versions of the service collect them
  in a \<open>Set\<close> (one with \<open>flatMap\<close>, the other with two nested \<open>forEach\<close>).\<close>

definition evidenceIds :: "Report list \<Rightarrow> string set" where
  "evidenceIds reports = set (concat (map (\<lambda>r. map ref_id (rep_evidenceRefs r)) reports))"

definition getAllReportsIndexed :: "io \<Rightarrow> Store \<Rightarrow> error + (Report list \<times> Evidence list)" where
  "getAllReportsIndexed io st =
     (if io GetMeta then Inl (IOError GetMeta)
      else
        (let order = (case meta_store st of None \<Rightarrow> [] | Some m \<Rightarrow> meta_order m)
         in if io GetAllReports then Inl (IOError GetAllReports)
            else
              (let reportsUnordered = reports_store st;
                   reportsMap = Map_of rep_id reportsUnordered;
                   reports = List.map_filter reportsMap order
               in if io GetAllEvidence then Inl (IOError GetAllEvidence)
                  else
                    (let allEvidence = evidence_store st;
                         relatedEvidence = filter (\<lambda>e. ev_id e \<in> evidenceIds reports) allEvidence
                     in Inr (reports, relatedEvidence)))))"

definition clearEvidenceAndReports :: "Store \<Rightarrow> Store" where
  "clearEvidenceAndReports st = \<lparr>evidence_store = [], reports_store = [], meta_store = None\<rparr>"

text \<open>A sequence of \<open>saveReport\<close> calls, one after the other's completion; each call
  comes with its own outcome of the requests, id and clock readings.\<close>

record SaveCall =
  call_io :: io
  call_uuid :: string
  call_now1 :: timestamp
  call_now2 :: timestamp
  call_report :: ReportInput

fun saveReports :: "SaveCall list \<Rightarrow> Store \<Rightarrow> (error + Report) list \<times> Store" where
  "saveReports [] st = ([], st)"
| "saveReports (c # cs) st =
     (let (r, st') = saveReport (call_io c) (call_uuid c) (call_now1 c) (call_now2 c)
                       (call_report c) st;
          (rs, st'') = saveReports cs st'
      in (r # rs, st''))"


section \<open>Strings and regular expressions of the platform\<close>

text \<open>
  The string methods the contradiction engine calls (\<open>toLowerCase\<close>, \<open>trim\<close>,
  \<open>includes\<close>, \<open>join\<close>, \<open>replace\<close>, \<open>match\<close>, \<open>exec\<close>), on code units up to U+00FF.
\<close>

definition in_range :: "char \<Rightarrow> char \<Rightarrow> char \<Rightarrow> bool" where
  "in_range lo hi c = (lo \<le> c \<and> c \<le> hi)"

text \<open>In the ranges \<open>A-Z\<close> and U+00C0..U+00DE the lower-case letter is \<open>0x20\<close> above the
  upper-case one, which is the bit \<open>0x20\<close> being set.\<close>

definition with_bit5 :: "bool \<Rightarrow> char \<Rightarrow> char" where
  "with_bit5 b c = (case c of Char b0 b1 b2 b3 b4 b5 b6 b7 \<Rightarrow> Char b0 b1 b2 b3 b4 b b6 b7)"

definition toLowerCase_char :: "char \<Rightarrow> char" where
  "toLowerCase_char c =
     (if in_range CHR ''A'' CHR ''Z'' c
         \<or> (in_range (CHR 0xC0) (CHR 0xDE) c \<and> c \<noteq> CHR 0xD7)
      then with_bit5 True c else c)"

definition toUpperCase_char :: "char \<Rightarrow> char" where
  "toUpperCase_char c =
     (if in_range CHR ''a'' CHR ''z'' c
         \<or> (in_range (CHR 0xE0) (CHR 0xFE) c \<and> c \<noteq> CHR 0xF7)
      then with_bit5 False c else c)"

definition toLowerCase :: "string \<Rightarrow> string" where
  "toLowerCase s = map toLowerCase_char s"

definition isSpace :: "char \<Rightarrow> bool" where
  "isSpace c = (in_range (CHR 0x09) (CHR 0x0D) c \<or> c = CHR 0x20 \<or> c = CHR 0xA0)"

definition trim :: "string \<Rightarrow> string" where
  "trim s = rev (dropWhile isSpace (rev (dropWhile isSpace s)))"

fun str_includes :: "string \<Rightarrow> string \<Rightarrow> bool" where
  "str_includes [] sub = (sub = [])"
| "str_includes (c # cs) sub = (take (length sub) (c # cs) = sub \<or> str_includes cs sub)"

fun join :: "string \<Rightarrow> string list \<Rightarrow> string" where
  "join sep [] = []"
| "join sep [x] = x"
| "join sep (x # y # ys) = x @ sep @ join sep (y # ys)"

definition substring :: "string \<Rightarrow> nat \<Rightarrow> nat \<Rightarrow> string" where
  "substring s i e = take (e - i) (drop i s)"

text \<open>
  The regular expressions of the source use character classes, literals, sequence,
  alternation, greedy repetition of a class (\<open>+\<close>, \<open>?\<close>, \<open>{n}\<close>, \<open>{m,n}\<close>), \<open>\b\<close>, \<open>$\<close> and
  capture groups. A class is a list of inclusive ranges, possibly negated.
\<close>

datatype cclass = In "(char \<times> char) list" | NotIn "(char \<times> char) list"

datatype regex =
    Class cclass
  | Lit string
  | Seq regex regex
  | Alt regex regex
  | Rep nat "nat option" cclass
  | WordBoundary
  | EndOfInput
  | Group nat regex

text \<open>The captures of a match: group number, start and end.\<close>

type_synonym captures = "(nat \<times> nat \<times> nat) list"

text \<open>
  With the flag \<open>i\<close> (\<open>ic\<close>) a character matches a class when a member of the class has
  the same canonical form, and a literal when the canonical forms agree. The canonical
  form is the upper-case letter; the members and literals of the patterns here are ASCII.
\<close>

definition in_ranges :: "(char \<times> char) list \<Rightarrow> char \<Rightarrow> bool" where
  "in_ranges rs c = list_ex (\<lambda>(lo, hi). in_range lo hi c) rs"

definition in_class :: "bool \<Rightarrow> (char \<times> char) list \<Rightarrow> char \<Rightarrow> bool" where
  "in_class ic rs c =
     (in_ranges rs c \<or> (ic \<and> (in_ranges rs (toUpperCase_char c) \<or> in_ranges rs (toLowerCase_char c))))"

fun cls_match :: "bool \<Rightarrow> cclass \<Rightarrow> char \<Rightarrow> bool" where
  "cls_match ic (In rs) c = in_class ic rs c"
| "cls_match ic (NotIn rs) c = (\<not> in_class ic rs c)"

definition canonicalize :: "bool \<Rightarrow> char \<Rightarrow> char" where
  "canonicalize ic c = (if ic then toUpperCase_char c else c)"

definition isWordChar :: "char \<Rightarrow> bool" where
  "isWordChar c = in_ranges [(CHR ''a'', CHR ''z''), (CHR ''A'', CHR ''Z''), (CHR ''0'', CHR ''9''),
                             (CHR ''_'', CHR ''_'')] c"

definition wordAt :: "string \<Rightarrow> nat \<Rightarrow> bool" where
  "wordAt s p = (p < length s \<and> isWordChar (s ! p))"

text \<open>
  The backtracking matcher: \<open>run ic s r (p, cs)\<close> lists the ends (with captures) of the
  matches of \<open>r\<close> in \<open>s\<close> that start at \<open>p\<close>, in the order in which the backtracking search
  tries them: the first alternative before the second, the longest repetition first. The
  match the engine reports is the head of the list.
\<close>

fun run :: "bool \<Rightarrow> string \<Rightarrow> regex \<Rightarrow> nat \<times> captures \<Rightarrow> (nat \<times> captures) list" where
  "run ic s (Class c) (p, cs) =
     (if p < length s \<and> cls_match ic c (s ! p) then [(Suc p, cs)] else [])"
| "run ic s (Lit w) (p, cs) =
     (if map (canonicalize ic) (take (length w) (drop p s)) = map (canonicalize ic) w
      then [(p + length w, cs)] else [])"
| "run ic s (Seq a b) st = concat (map (run ic s b) (run ic s a st))"
| "run ic s (Alt a b) st = run ic s a st @ run ic s b st"
| "run ic s (Rep lo hi c) (p, cs) =
     (let n = length (takeWhile (cls_match ic c) (drop p s));
          m = (case hi of None \<Rightarrow> n | Some h \<Rightarrow> min h n)
      in map (\<lambda>k. (p + k, cs)) (rev [lo..<Suc m]))"
| "run ic s WordBoundary (p, cs) =
     (if (0 < p \<and> wordAt s (p - 1)) \<noteq> wordAt s p then [(p, cs)] else [])"
| "run ic s EndOfInput (p, cs) = (if p = length s then [(p, cs)] else [])"
| "run ic s (Group g r) (p, cs) = map (\<lambda>(e, cs'). (e, (g, p, e) # cs')) (run ic s r (p, cs))"

text \<open>\<open>regex_exec ic r s i\<close>: the leftmost match at or after \<open>i\<close>, as start, end and
  captures.\<close>

function regex_exec :: "bool \<Rightarrow> regex \<Rightarrow> string \<Rightarrow> nat \<Rightarrow> (nat \<times> nat \<times> captures) option" where
  "regex_exec ic r s i =
     (if length s < i then None
      else (case run ic s r (i, []) of
              (e, cs) # _ \<Rightarrow> Some (i, e, cs)
            | [] \<Rightarrow> regex_exec ic r s (Suc i)))"
  by pat_completeness auto
termination
  by (relation "measure (\<lambda>(ic, r, s, i). Suc (length s) - i)") auto

declare regex_exec.simps [simp del]

lemma run_bounds:
  "(e, cs') \<in> set (run ic s r (p, cs)) \<Longrightarrow> p \<le> length s \<Longrightarrow> p \<le> e \<and> e \<le> length s"
proof (induction r arbitrary: p cs e cs')
  case (Class c) then show ?case by (auto split: if_splits)
next
  case (Lit w)
  then have "length (take (length w) (drop p s)) = length w"
    by (auto split: if_splits dest: arg_cong[where f = length])
  with Lit show ?case by (auto split: if_splits)
next
  case (Seq a b)
  from Seq.prems(1) obtain m cm where "(m, cm) \<in> set (run ic s a (p, cs))"
    "(e, cs') \<in> set (run ic s b (m, cm))" by auto
  with Seq.IH Seq.prems(2) show ?case by (meson le_trans)
next
  case (Alt a b) then show ?case by auto
next
  case (Rep lo hi c)
  have "length (takeWhile (cls_match ic c) (drop p s)) \<le> length s - p"
    by (metis length_drop length_takeWhile_le)
  with Rep show ?case by (auto simp: Let_def split: option.splits)
next
  case WordBoundary then show ?case by (auto split: if_splits)
next
  case EndOfInput then show ?case by (auto split: if_splits)
next
  case (Group g r) then show ?case by auto
qed

lemma regex_exec_bounds:
  "regex_exec ic r s i = Some (p, e, cs) \<Longrightarrow> i \<le> p \<and> p \<le> e \<and> e \<le> length s"
proof (induction ic r s i rule: regex_exec.induct)
  case (1 ic r s i)
  show ?case
  proof (cases "run ic s r (i, [])")
    case Nil
    with 1 show ?thesis by (subst (asm) (2) regex_exec.simps) (auto split: if_splits)
  next
    case (Cons x xs)
    obtain e' cs' where x: "x = (e', cs')" by (cases x)
    with Cons 1(2) have "\<not> length s < i" "p = i" "e = e'" "cs = cs'"
      by (subst (asm) regex_exec.simps, simp split: if_splits)+
    moreover have "(e', cs') \<in> set (run ic s r (i, []))" using Cons x by simp
    ultimately show ?thesis using run_bounds[of e' cs' ic s r i "[]"] by simp
  qed
qed

text \<open>
  All matches of a pattern with the flag \<open>g\<close>, as \<open>String.prototype.match\<close> collects them
  and as a \<open>while\<close> loop over \<open>exec\<close> visits them: the search resumes at the end of the
  previous match (one further after an empty match, which the patterns here never have).
\<close>

function match_all :: "bool \<Rightarrow> regex \<Rightarrow> string \<Rightarrow> nat \<Rightarrow> (nat \<times> nat \<times> captures) list" where
  "match_all ic r s lastIndex =
     (case regex_exec ic r s lastIndex of
        None \<Rightarrow> []
      | Some (i, e, cs) \<Rightarrow> (i, e, cs) # match_all ic r s (if e = i then Suc e else e))"
  by pat_completeness auto
termination
proof (relation "measure (\<lambda>(ic, r, s, i). Suc (length s) - i)", goal_cases)
  case 1 show ?case by simp
next
  case (2 ic r s lastIndex x2 i y e cs)
  then have "regex_exec ic r s lastIndex = Some (i, e, cs)" by simp
  from regex_exec_bounds[OF this] show ?case by auto
qed

declare match_all.simps [simp del]


text \<open>\<open>s.replace(r, "")\<close> for a pattern without the flag \<open>g\<close>, and \<open>match[g]\<close>.\<close>

definition replace_first :: "bool \<Rightarrow> regex \<Rightarrow> string \<Rightarrow> string" where
  "replace_first ic r s =
     (case regex_exec ic r s 0 of None \<Rightarrow> s | Some (i, e, cs) \<Rightarrow> take i s @ drop e s)"

definition group_text :: "string \<Rightarrow> captures \<Rightarrow> nat \<Rightarrow> string" where
  "group_text s cs g = (case map_of cs g of None \<Rightarrow> [] | Some (a, b) \<Rightarrow> substring s a b)"

definition digit :: cclass where
  "digit = In [(CHR ''0'', CHR ''9'')]"

definition whitespace :: cclass where
  "whitespace = In [(CHR 0x09, CHR 0x0D), (CHR 0x20, CHR 0x20), (CHR 0xA0, CHR 0xA0)]"

definition opt :: "char \<Rightarrow> regex" where
  "opt c = Rep 0 (Some 1) (In [(c, c)])"

text \<open>\<^verbatim>\<open>/\.[^/.]+$/\<close>\<close>

definition extensionRegex :: regex where
  "extensionRegex =
     Seq (Lit ''.'') (Seq (Rep 1 None (NotIn [(CHR ''/'', CHR ''/''), (CHR ''.'', CHR ''.'')]))
       EndOfInput)"

text \<open>\<^verbatim>\<open>/\b(0?[1-9]|1[0-2])\/(0?[1-9]|[12][0-9]|3[01])\/\d{4}\b/g\<close>\<close>

definition monthPattern :: regex where
  "monthPattern =
     Alt (Seq (opt CHR ''0'') (Class (In [(CHR ''1'', CHR ''9'')])))
         (Seq (Lit ''1'') (Class (In [(CHR ''0'', CHR ''2'')])))"

definition dayPattern :: regex where
  "dayPattern =
     Alt (Seq (opt CHR ''0'') (Class (In [(CHR ''1'', CHR ''9'')])))
    (Alt (Seq (Class (In [(CHR ''1'', CHR ''1''), (CHR ''2'', CHR ''2'')]))
              (Class (In [(CHR ''0'', CHR ''9'')])))
         (Seq (Lit ''3'') (Class (In [(CHR ''0'', CHR ''0''), (CHR ''1'', CHR ''1'')]))))"

definition dateRegex :: regex where
  "dateRegex =
     Seq WordBoundary
    (Seq (Group 1 monthPattern)
    (Seq (Lit ''/'')
    (Seq (Group 2 dayPattern)
    (Seq (Lit ''/'')
    (Seq (Rep 4 (Some 4) digit)
         WordBoundary)))))"

text \<open>\<^verbatim>\<open>/(see|ref|reference|attachment|exhibit)\s+([A-Z0-9-]{1,10})/gi\<close>\<close>

definition omissionRegex :: regex where
  "omissionRegex =
     Seq (Group 1 (Alt (Lit ''see'') (Alt (Lit ''ref'') (Alt (Lit ''reference'')
                  (Alt (Lit ''attachment'') (Lit ''exhibit''))))))
    (Seq (Rep 1 None whitespace)
         (Group 2 (Rep 1 (Some 10)
            (In [(CHR ''A'', CHR ''Z''), (CHR ''0'', CHR ''9''), (CHR ''-'', CHR ''-'')]))))"



section \<open>Contradiction engine: one pass\<close>

text \<open>
  The result of \<open>new Date(dateStr)\<close> for a string that is not in the ISO format and the
  output of \<open>toLocaleDateString()\<close> depend on the implementation, the locale and the time
  zone: they are parameters of the engine. \<open>Date_parse\<close> yields \<open>None\<close> for an invalid date.
\<close>

record DateEnv =
  Date_parse :: "string \<Rightarrow> timestamp option"
  toLocaleDateString :: "timestamp \<Rightarrow> string"

text \<open>The quotation marks of the template strings.\<close>

definition dq :: string where "dq = [CHR 0x22]"
definition sq :: string where "sq = [CHR 0x27]"

text \<open>\<open>allEvidenceInScope\<close>: the evidence the reports reference, each id once, in the
  order in which the references are met.\<close>

definition addToScope :: "(string \<rightharpoonup> Evidence) \<Rightarrow> Evidence list \<Rightarrow> EvidenceRef \<Rightarrow> Evidence list" where
  "addToScope evidenceMap scope ref =
     (case evidenceMap (ref_id ref) of
        None \<Rightarrow> scope
      | Some ev \<Rightarrow> if list_ex (\<lambda>e. ev_id e = ev_id ev) scope then scope else scope @ [ev])"

definition allEvidenceInScope :: "Report list \<Rightarrow> Evidence list \<Rightarrow> Evidence list" where
  "allEvidenceInScope reports evidenceList =
     (let evidenceMap = Map_of ev_id evidenceList
      in foldl (\<lambda>scope r. foldl (addToScope evidenceMap) scope (rep_evidenceRefs r)) [] reports)"

text \<open>\<open>e.ocrText && e.ocrText.trim().length > 0\<close>\<close>

definition hasText :: "Evidence \<Rightarrow> bool" where
  "hasText e = (case ev_ocrText e of None \<Rightarrow> False | Some t \<Rightarrow> t \<noteq> [] \<and> 0 < length (trim t))"

definition normalizedName :: "Evidence \<Rightarrow> string" where
  "normalizedName e = replace_first False extensionRegex (toLowerCase (ev_name e))"

text \<open>Rule \<open>cross_doc_drift\<close>, on each pair \<open>i < j\<close> of the scope.\<close>

definition driftRecord :: "Evidence \<Rightarrow> Evidence \<Rightarrow> RawContradiction" where
  "driftRecord evA evB =
     \<lparr>c_type = cross_doc_drift, c_actor = None,
      c_claimA = Some (''Evidence named '' @ dq @ ev_name evA @ dq),
      c_claimB = Some (''Evidence named '' @ dq @ ev_name evB @ dq),
      c_sources = [ev_id evA, ev_id evB],
      c_explanation = ''Two files with similar names ('' @ sq @ ev_name evA @ sq @ '', ''
         @ sq @ ev_name evB @ sq
         @ '') have different content hashes, indicating a possible version mismatch or alteration.''\<rparr>"

definition crossDocDrift :: "Evidence \<Rightarrow> Evidence \<Rightarrow> RawContradiction list" where
  "crossDocDrift evA evB =
     (let nameA = normalizedName evA; nameB = normalizedName evB
      in if (str_includes nameA nameB \<or> str_includes nameB nameA) \<and> nameA \<noteq> nameB
            \<and> ev_sha512 evA \<noteq> ev_sha512 evB
         then [driftRecord evA evB]
         else [])"

definition pairLoop :: "Evidence list \<Rightarrow> RawContradiction list" where
  "pairLoop scope =
     concat (map (\<lambda>i. concat (map (\<lambda>j. crossDocDrift (scope ! i) (scope ! j))
                                    [Suc i..<length scope]))
                 [0..<length scope])"

text \<open>Rule \<open>metadata_mismatch\<close>, on each date the text of an evidence item mentions.\<close>

definition mismatchRecord :: "DateEnv \<Rightarrow> Evidence \<Rightarrow> timestamp \<Rightarrow> RawContradiction" where
  "mismatchRecord env evidence mentionedDate =
     (let fileCreationDate = ev_createdAt evidence
      in \<lparr>c_type = metadata_mismatch, c_actor = None,
          c_claimA = Some (''File created: '' @ toLocaleDateString env fileCreationDate),
          c_claimB = Some (''Content mentions: '' @ toLocaleDateString env mentionedDate),
          c_sources = [ev_id evidence],
          c_explanation = ''The document content mentions a future date (''
            @ toLocaleDateString env mentionedDate
            @ '') relative to its creation date (''
            @ toLocaleDateString env fileCreationDate @ '').''\<rparr>)"

text \<open>An invalid date compares false with every date.\<close>

definition metadataMismatch :: "DateEnv \<Rightarrow> Evidence \<Rightarrow> string \<Rightarrow> RawContradiction list" where
  "metadataMismatch env evidence dateStr =
     (case Date_parse env dateStr of
        None \<Rightarrow> []
      | Some mentionedDate \<Rightarrow>
          if mentionedDate > ev_createdAt evidence
          then [mismatchRecord env evidence mentionedDate]
          else [])"

definition mentionedDates :: "string \<Rightarrow> string list" where
  "mentionedDates text = map (\<lambda>(i, e, cs). substring text i e) (match_all False dateRegex text 0)"

text \<open>Rule \<open>omission\<close>, on each reference the text of an evidence item makes.\<close>

definition omissionRecord :: "Evidence \<Rightarrow> string \<Rightarrow> RawContradiction" where
  "omissionRecord evidence m2 =
     \<lparr>c_type = omission, c_actor = None,
      c_claimA = Some (''Reference to '' @ dq @ m2 @ dq),
      c_claimB = Some ''Evidence not provided'',
      c_sources = [ev_id evidence],
      c_explanation = ''Document '' @ dq @ ev_name evidence @ dq
        @ '' references an exhibit or attachment '' @ dq @ m2 @ dq
        @ '' which was not found in the provided evidence set.''\<rparr>"

definition omissionOf :: "Evidence list \<Rightarrow> Evidence \<Rightarrow> string \<Rightarrow> RawContradiction list" where
  "omissionOf scope evidence m2 =
     (let referencedExhibit = toLowerCase m2;
          found = list_ex (\<lambda>e. str_includes (toLowerCase (ev_name e)) referencedExhibit) scope
      in if \<not> found then [omissionRecord evidence m2] else [])"

definition textRules :: "DateEnv \<Rightarrow> Evidence list \<Rightarrow> Evidence \<Rightarrow> RawContradiction list" where
  "textRules env scope evidence =
     (let text = (case ev_ocrText evidence of None \<Rightarrow> [] | Some t \<Rightarrow> t)
      in concat (map (metadataMismatch env evidence) (mentionedDates text))
         @ concat (map (\<lambda>(i, e, cs). omissionOf scope evidence (group_text text cs 2))
                       (match_all True omissionRegex text 0)))"

definition analyzeContradictionsOnce ::
  "DateEnv \<Rightarrow> Report list \<Rightarrow> Evidence list \<Rightarrow> RawContradiction list" where
  "analyzeContradictionsOnce env reports evidenceList =
     (let scope = allEvidenceInScope reports evidenceList;
          textEvidence = filter hasText scope
      in pairLoop scope @ concat (map (textRules env scope) textEvidence))"


section \<open>Contradiction engine: three shuffled passes and the consensus\<close>

text \<open>
  \<open>Math.random()\<close> reads a sequence of draws: \<open>rng 0\<close> is the next one, and the
  index \<open>Math.floor(Math.random() * n)\<close>, which ranges over \<open>0..n-1\<close>, is that draw
  reduced modulo \<open>n\<close>.
\<close>

type_synonym rng = "nat \<Rightarrow> nat"

definition random_index :: "rng \<Rightarrow> nat \<Rightarrow> nat \<times> rng" where
  "random_index rng n = (rng 0 mod n, \<lambda>k. rng (Suc k))"

fun shuffle_from :: "nat \<Rightarrow> rng \<Rightarrow> 'a list \<Rightarrow> 'a list \<times> rng" where
  "shuffle_from 0 rng newArray = (newArray, rng)"
| "shuffle_from (Suc i) rng newArray =
     (let (j, rng') = random_index rng (Suc i + 1)
      in shuffle_from i rng' (newArray[Suc i := newArray ! j, j := newArray ! Suc i]))"

definition shuffle :: "rng \<Rightarrow> 'a list \<Rightarrow> 'a list \<times> rng" where
  "shuffle rng array = shuffle_from (length array - 1) rng array"

text \<open>The key \<^verbatim>\<open>`${c.type}-${[...c.sources].sort().join('-')}-${c.explanation}`\<close>.\<close>

definition type_name :: "ContradictionType \<Rightarrow> string" where
  "type_name t = (case t of direct \<Rightarrow> ''direct'' | metadata_mismatch \<Rightarrow> ''metadata_mismatch''
                  | cross_doc_drift \<Rightarrow> ''cross_doc_drift'' | omission \<Rightarrow> ''omission'')"

definition key_of :: "'a RawContradiction_scheme \<Rightarrow> string" where
  "key_of c = type_name (c_type c) @ ''-'' @ join ''-'' (sort (c_sources c)) @ ''-'' @ c_explanation c"

fun passes :: "nat \<Rightarrow> DateEnv \<Rightarrow> rng \<Rightarrow> Report list \<Rightarrow> Evidence list
    \<Rightarrow> (string \<times> RawContradiction) list" where
  "passes 0 env rng reports evidence = []"
| "passes (Suc n) env rng reports evidence =
     (let (shuffledReports, rng1) = shuffle rng reports;
          (shuffledEvidence, rng2) = shuffle rng1 evidence;
          results = analyzeContradictionsOnce env shuffledReports shuffledEvidence
      in map (\<lambda>c. (key_of c, c)) results @ passes n env rng2 reports evidence)"

text \<open>\<open>contradictionCounts\<close>, a \<open>Map\<close> from key to contradiction and count: its entries
  in insertion order.\<close>

fun count_one :: "(string \<times> RawContradiction \<times> nat) list \<Rightarrow> string \<times> RawContradiction
    \<Rightarrow> (string \<times> RawContradiction \<times> nat) list" where
  "count_one [] (key, c) = [(key, c, 1)]"
| "count_one ((k, existing, cnt) # m) (key, c) =
     (if k = key then (k, existing, cnt + 1) # m
      else (k, existing, cnt) # count_one m (key, c))"

definition classify :: "nat \<Rightarrow> Verification" where
  "classify cnt =
     (if cnt \<ge> 3 then Verified_3_3 else if cnt = 2 then Consensus_2_3 else Inconclusive_1_3)"

definition finalize :: "string \<times> RawContradiction \<times> nat \<Rightarrow> Contradiction" where
  "finalize entry = (case entry of (key, contradiction, cnt) \<Rightarrow>
     \<lparr>c_type = c_type contradiction, c_actor = c_actor contradiction,
      c_claimA = c_claimA contradiction, c_claimB = c_claimB contradiction,
      c_sources = c_sources contradiction, c_explanation = c_explanation contradiction,
      c_verification = classify cnt\<rparr>)"

definition runContradictionAnalysis ::
  "DateEnv \<Rightarrow> rng \<Rightarrow> Report list \<Rightarrow> Evidence list \<Rightarrow> Contradiction list" where
  "runContradictionAnalysis env rng reports evidence =
     (let allFoundContradictions = passes 3 env rng reports evidence;
          contradictionCounts = foldl count_one [] allFoundContradictions
      in map finalize contradictionCounts)"


section \<open>The report ledger\<close>

definition index_order :: "Store \<Rightarrow> string list" where
  "index_order st = (case meta_store st of None \<Rightarrow> [] | Some m \<Rightarrow> meta_order m)"

definition index_last :: "Store \<Rightarrow> nat" where
  "index_last st = (case meta_store st of None \<Rightarrow> 0 | Some m \<Rightarrow> meta_lastChapterIndex m)"

definition no_faults :: io where
  "no_faults = (\<lambda>q. False)"

definition demo_input :: "string \<Rightarrow> ReportInput" where
  "demo_input title = \<lparr>in_title = title, in_jurisdiction = Global, in_timezone = ''UTC'',
     in_evidenceRefs = [], in_findings = [], in_contradictions = [], in_timeline = [],
     in_pdfSha512 = None, in_rawHtmlReport = None, in_highlights = None\<rparr>"

definition demo_calls :: "SaveCall list" where
  "demo_calls =
     [\<lparr>call_io = no_faults, call_uuid = ''b7'', call_now1 = 10, call_now2 = 10,
       call_report = demo_input ''first''\<rparr>,
      \<lparr>call_io = no_faults, call_uuid = ''a3'', call_now1 = 20, call_now2 = 21,
       call_report = demo_input ''second''\<rparr>]"

lemma saveReport_Inr:
  assumes "saveReport io uuid now1 now2 report st = (Inr r, st')"
  shows "index_order st' = index_order st @ [uuid] \<and> index_last st' = index_last st + 1
       \<and> rep_id r = uuid \<and> rep_chapterIndex r = index_last st + 1"
proof -
  from assms have io: "\<not> io GetMeta" "\<not> io PutMeta" "\<not> io PutReport"
    by (simp_all add: saveReport_def Let_def split: if_splits)
  from assms io have r: "rep_id r = uuid" "rep_chapterIndex r = index_last st + 1"
    and st': "meta_store st' = Some \<lparr>meta_key = (case meta_store st of None \<Rightarrow> ''reports_index'' | Some m \<Rightarrow> meta_key m), 
       meta_order = index_order st @ [uuid], meta_lastChapterIndex = index_last st + 1\<rparr>"
    by (auto simp add: saveReport_def Let_def index_order_def index_last_def split: option.splits)
  show ?thesis using r st' by (simp add: index_order_def index_last_def)
qed

lemma upt_shift:
  "map ((+) a) [Suc 0..<Suc (Suc n)] = Suc a # map (\<lambda>k. Suc (a + k)) [Suc 0..<Suc n]"
proof -
  have "[Suc 0..<Suc (Suc n)] = Suc 0 # map Suc [Suc 0..<Suc n]"
    by (simp add: map_Suc_upt upt_conv_Cons del: upt_Suc)
  then show ?thesis by (simp add: comp_def del: upt_Suc)
qed

lemma saveReports_Cons:
  assumes "saveReports (c # cs) st = (map Inr reports, st')"
  obtains r reports' st1 where "reports = r # reports'"
    "saveReport (call_io c) (call_uuid c) (call_now1 c) (call_now2 c) (call_report c) st = (Inr r, st1)"
    "saveReports cs st1 = (map Inr reports', st')"
proof -
  obtain r1 st1 where s1: "saveReport (call_io c) (call_uuid c) (call_now1 c) (call_now2 c)
                       (call_report c) st = (r1, st1)" by fastforce
  obtain rs st2 where s2: "saveReports cs st1 = (rs, st2)" by fastforce
  from assms have "r1 # rs = map Inr reports" "st2 = st'" by (simp_all add: s1 s2)
  then show ?thesis using that s1 s2 by (cases reports) auto
qed

lemma saveReports_Inr:
  "saveReports calls st = (map Inr reports, st') \<Longrightarrow>
     index_order st' = index_order st @ map call_uuid calls
   \<and> index_last st' = index_last st + length calls
   \<and> map rep_id reports = map call_uuid calls
   \<and> map rep_chapterIndex reports = map (\<lambda>k. index_last st + k) [1..<Suc (length calls)]"
proof (induction calls arbitrary: st st' reports)
  case Nil
  then show ?case by simp
next
  case (Cons c cs)
  from Cons.prems obtain r reports' st1 where rr: "reports = r # reports'"
    and s1: "saveReport (call_io c) (call_uuid c) (call_now1 c) (call_now2 c) (call_report c) st = (Inr r, st1)"
    and s2: "saveReports cs st1 = (map Inr reports', st')"
    by (rule saveReports_Cons)
  note h1 = saveReport_Inr[OF s1] and h2 = Cons.IH[OF s2]
  show ?case unfolding rr using h1 h2 by (simp add: upt_shift del: upt_Suc)
qed

text \<open>
  C1. After any sequence of \<open>saveReport\<close> calls that all succeed on an empty store, the
  \<open>order\<close> list of the index is the list of the ids assigned by the calls, in call order
  and as long as the sequence (so each id occurs once when the generated ids differ), the
  chapter indices of the reports are \<open>1..N\<close> in that order, and \<open>lastChapterIndex\<close> is \<open>N\<close>.
\<close>

theorem saveReports_order_and_chapters:
  assumes "saveReports calls empty_store = (map Inr reports, st)"
  shows "index_order st = map rep_id reports
       \<and> map rep_id reports = map call_uuid calls
       \<and> length (index_order st) = length calls
       \<and> map rep_chapterIndex reports = [1..<Suc (length calls)]
       \<and> index_last st = length calls
       \<and> (distinct (map call_uuid calls) \<longrightarrow> distinct (index_order st))"
proof -
  have e: "index_order empty_store = []" "index_last empty_store = 0"
    by (simp_all add: index_order_def index_last_def empty_store_def)
  from saveReports_Inr[OF assms] show ?thesis unfolding e by (simp del: upt_Suc)
qed

lemma demo_calls_run:
  "\<exists>reports st. saveReports demo_calls empty_store = (map Inr reports, st)"
  apply (rule exI[of _ "map projr (fst (saveReports demo_calls empty_store))"])
  apply (rule exI[of _ "snd (saveReports demo_calls empty_store)"])
  apply (simp add: demo_calls_def saveReport_def no_faults_def empty_store_def Let_def)
  done

theorem saveReports_order_and_chapters_witness:
  "\<exists>reports st. saveReports demo_calls empty_store = (map Inr reports, st)
     \<and> index_order st = [''b7'', ''a3''] \<and> map rep_chapterIndex reports = [1, 2]
     \<and> index_last st = 2 \<and> distinct (index_order st)"
proof -
  from demo_calls_run obtain reports st
    where h: "saveReports demo_calls empty_store = (map Inr reports, st)" by blast
  have d: "map call_uuid demo_calls = [''b7'', ''a3'']" by (simp add: demo_calls_def)
  have n: "[1..<Suc 2] = [1, 2::nat]" by (simp add: upt_rec)
  have l: "length demo_calls = 2" by (simp add: demo_calls_def)
  from saveReports_order_and_chapters[OF h] show ?thesis
    unfolding d l n by (intro exI[of _ reports] exI[of _ st]) (simp add: h)
qed


section \<open>The indexed read path\<close>

definition demo_evidence :: "string \<Rightarrow> string \<Rightarrow> string \<Rightarrow> timestamp \<Rightarrow> string option \<Rightarrow> Evidence" where
  "demo_evidence i n h t txt = \<lparr>ev_id = i, ev_name = n, ev_size = 0, ev_type = ''application/pdf'',
     ev_blob = [], ev_sha512 = h, ev_createdAt = t, ev_jurisdiction = Global,
     ev_timezone = ''UTC'', ev_meta = [], ev_ocrText = txt\<rparr>"

definition demo_report :: "string \<Rightarrow> nat \<Rightarrow> string list \<Rightarrow> Report" where
  "demo_report i n refs = \<lparr>rep_id = i, rep_title = ''report'', rep_chapterIndex = n,
     rep_createdAt = 0, rep_updatedAt = 0, rep_jurisdiction = Global, rep_timezone = ''UTC'',
     rep_evidenceRefs = map (\<lambda>k. \<lparr>ref_id = k, ref_sha512 = ''00''\<rparr>) refs, rep_findings = [],
     rep_contradictions = [], rep_timeline = [], rep_pdfSha512 = None,
     rep_rawHtmlReport = None, rep_highlights = None\<rparr>"

definition demo_store :: Store where
  "demo_store =
     \<lparr>evidence_store = [demo_evidence ''e1'' ''a.pdf'' ''aa'' 5 None,
                        demo_evidence ''e9'' ''b.pdf'' ''bb'' 6 None],
      reports_store = [demo_report ''a3'' 1 [''e1'', ''e7''], demo_report ''zz'' 7 [''e9'']],
      meta_store = Some \<lparr>meta_key = ''reports_index'', meta_order = [''gone'', ''a3''],
                         meta_lastChapterIndex = 2\<rparr>\<rparr>"

lemma Map_of_Some: "Map_of key xs k = Some x \<Longrightarrow> x \<in> set xs \<and> key x = k"
  unfolding Map_of_def by (auto dest!: map_of_SomeD)

lemma Map_of_dom: "(Map_of key xs k \<noteq> None) = (k \<in> key ` set xs)"
  unfolding Map_of_def by (force simp: map_of_eq_None_iff image_iff)

lemma map_filter_set: "x \<in> set (List.map_filter f xs) \<Longrightarrow> \<exists>k \<in> set xs. f k = Some x"
  by (auto simp: List.map_filter_def)

lemma map_filter_keys:
  "(\<And>k x. f k = Some x \<Longrightarrow> key x = k) \<Longrightarrow>
     map key (List.map_filter f xs) = filter (\<lambda>k. f k \<noteq> None) xs"
  by (induction xs) (auto simp: List.map_filter_def)

text \<open>
  C4. Whenever \<open>getAllReportsIndexed\<close> returns, every returned report has its id in the
  \<open>order\<close> list of the index (a stored report absent from the index is not returned), the
  returned reports are in index order, and every returned evidence record is referenced by
  a returned report; and it returns when no request fails.
\<close>

theorem getAllReportsIndexed_visible:
  "(getAllReportsIndexed io st = Inr (reports, evidence) \<longrightarrow>
      (\<forall>r \<in> set reports. rep_id r \<in> set (index_order st) \<and> r \<in> set (reports_store st))
    \<and> map rep_id reports = filter (\<lambda>k. k \<in> rep_id ` set (reports_store st)) (index_order st)
    \<and> (\<forall>e \<in> set evidence. e \<in> set (evidence_store st)
          \<and> (\<exists>r \<in> set reports. \<exists>ref \<in> set (rep_evidenceRefs r). ref_id ref = ev_id e)))
   \<and> ((\<forall>q. \<not> io q) \<longrightarrow> (\<exists>reports evidence. getAllReportsIndexed io st = Inr (reports, evidence)))"
proof (intro conjI impI)
  assume a: "getAllReportsIndexed io st = Inr (reports, evidence)"
  then have r: "reports = List.map_filter (Map_of rep_id (reports_store st)) (index_order st)"
    and e: "evidence = filter (\<lambda>e. ev_id e \<in> evidenceIds reports) (evidence_store st)"
    by (auto simp: getAllReportsIndexed_def Let_def index_order_def split: if_splits)
  show "\<forall>r \<in> set reports. rep_id r \<in> set (index_order st) \<and> r \<in> set (reports_store st)"
    unfolding r by (auto dest!: map_filter_set Map_of_Some)
  have "map rep_id reports = filter (\<lambda>k. Map_of rep_id (reports_store st) k \<noteq> None) (index_order st)"
    unfolding r by (rule map_filter_keys) (simp add: Map_of_Some)
  then show "map rep_id reports = filter (\<lambda>k. k \<in> rep_id ` set (reports_store st)) (index_order st)"
    by (simp only: Map_of_dom)
  show "\<forall>e \<in> set evidence. e \<in> set (evidence_store st)
          \<and> (\<exists>r \<in> set reports. \<exists>ref \<in> set (rep_evidenceRefs r). ref_id ref = ev_id e)"
    unfolding e evidenceIds_def by fastforce
next
  assume "\<forall>q. \<not> io q"
  then show "\<exists>reports evidence. getAllReportsIndexed io st = Inr (reports, evidence)"
    by (simp add: getAllReportsIndexed_def Let_def)
qed

lemma demo_store_read:
  "getAllReportsIndexed no_faults demo_store
     = Inr ([demo_report ''a3'' 1 [''e1'', ''e7'']], [demo_evidence ''e1'' ''a.pdf'' ''aa'' 5 None])"
  by (simp add: getAllReportsIndexed_def no_faults_def demo_store_def Let_def Map_of_def
      List.map_filter_def evidenceIds_def demo_report_def demo_evidence_def)

theorem getAllReportsIndexed_visible_witness:
  "getAllReportsIndexed no_faults demo_store
     = Inr ([demo_report ''a3'' 1 [''e1'', ''e7'']], [demo_evidence ''e1'' ''a.pdf'' ''aa'' 5 None])
   \<and> map rep_id [demo_report ''a3'' 1 [''e1'', ''e7'']]
       = filter (\<lambda>k. k \<in> rep_id ` set (reports_store demo_store)) (index_order demo_store)
   \<and> (\<forall>q. \<not> no_faults q)"
  using getAllReportsIndexed_visible[of no_faults demo_store
      "[demo_report ''a3'' 1 [''e1'', ''e7'']]" "[demo_evidence ''e1'' ''a.pdf'' ''aa'' 5 None]"]
    demo_store_read
  by (simp add: no_faults_def)


section \<open>Evidence updates\<close>

lemma find_insort_key_other:
  "\<not> P x \<Longrightarrow> find P (insort_key f x xs) = find P xs"
  by (induction xs) auto

lemma find_filter_weaker:
  "(\<And>y. P y \<Longrightarrow> Q y) \<Longrightarrow> find P (filter Q xs) = find P xs"
  by (induction xs) auto

lemma store_get_put: "store_get key (key x) (store_put key x xs) = Some x"
proof -
  let ?ys = "insort_key key x (filter (\<lambda>y. key y \<noteq> key x) xs)"
  have s: "set ?ys = insert x {y \<in> set xs. key y \<noteq> key x}" by (simp add: set_insort_key)
  have "find (\<lambda>y. key y = key x) ?ys \<noteq> None" unfolding find_None_iff s by blast
  then obtain y where y: "find (\<lambda>y. key y = key x) ?ys = Some y" by blast
  then have "y \<in> set ?ys" "key y = key x" by (auto simp: find_Some_iff)
  then have "y = x" using s by auto
  then show ?thesis using y by (simp add: store_get_def store_put_def)
qed

lemma store_get_put_other:
  "k \<noteq> key x \<Longrightarrow> store_get key k (store_put key x xs) = store_get key k xs"
  unfolding store_get_def store_put_def
  by (simp add: find_insort_key_other find_filter_weaker)

lemma updateEvidence_Inr:
  "updateEvidence io ev st = (Inr r, st') \<Longrightarrow>
     r = ev \<and> evidence_store st' = store_put ev_id ev (evidence_store st)"
  by (auto simp: updateEvidence_def split: if_splits)

definition stored_ev :: Evidence where
  "stored_ev = demo_evidence ''e1'' ''a.pdf'' ''aa'' 5 None"

text \<open>
  C9 fails as stated: \<open>updateEvidence\<close> puts the record it is given, so a record with the
  id of a stored one and another \<open>sha512\<close> replaces the stored digest.
\<close>

theorem updateEvidence_alters_digest:
  "store_get ev_id ''e1'' (evidence_store demo_store) = Some stored_ev
   \<and> ev_sha512 stored_ev = ''aa''
   \<and> fst (updateEvidence no_faults (stored_ev\<lparr>ev_sha512 := ''ff''\<rparr>) demo_store)
       = Inr (stored_ev\<lparr>ev_sha512 := ''ff''\<rparr>)
   \<and> map_option ev_sha512 (store_get ev_id ''e1'' (evidence_store
        (snd (updateEvidence no_faults (stored_ev\<lparr>ev_sha512 := ''ff''\<rparr>) demo_store))))
       = Some ''ff''"
  by (simp add: updateEvidence_def no_faults_def demo_store_def stored_ev_def store_get_def
      store_put_def demo_evidence_def)

text \<open>
  C9, amended. A successful \<open>updateEvidence\<close> stores exactly the record it is given under
  that record's id and leaves every other record as it was: the stored digest afterwards is
  the digest of the record supplied. It equals the digest stored before when the supplied
  record is the stored one with only the extracted text attached.
\<close>

theorem updateEvidence_stores_argument:
  assumes "updateEvidence io ev st = (Inr r, st')"
  shows "store_get ev_id (ev_id ev) (evidence_store st') = Some ev
       \<and> (\<forall>k. k \<noteq> ev_id ev \<longrightarrow>
            store_get ev_id k (evidence_store st') = store_get ev_id k (evidence_store st))
       \<and> (\<forall>old text. store_get ev_id (ev_id ev) (evidence_store st) = Some old
              \<and> ev = old\<lparr>ev_ocrText := Some text\<rparr> \<longrightarrow>
            map_option ev_sha512 (store_get ev_id (ev_id ev) (evidence_store st'))
              = Some (ev_sha512 old))"
proof -
  from updateEvidence_Inr[OF assms]
  have st': "evidence_store st' = store_put ev_id ev (evidence_store st)" by simp
  have g: "store_get ev_id (ev_id ev) (evidence_store st') = Some ev"
    unfolding st' by (rule store_get_put)
  have o: "\<forall>k. k \<noteq> ev_id ev \<longrightarrow>
            store_get ev_id k (evidence_store st') = store_get ev_id k (evidence_store st)"
    unfolding st' by (simp add: store_get_put_other)
  have h: "\<forall>old text. store_get ev_id (ev_id ev) (evidence_store st) = Some old
              \<and> ev = old\<lparr>ev_ocrText := Some text\<rparr> \<longrightarrow>
            map_option ev_sha512 (store_get ev_id (ev_id ev) (evidence_store st'))
              = Some (ev_sha512 old)"
    unfolding g by auto
  from g o h show ?thesis by blast
qed

theorem updateEvidence_stores_argument_witness:
  "updateEvidence no_faults (stored_ev\<lparr>ev_ocrText := Some ''scanned text''\<rparr>) demo_store
     = (Inr (stored_ev\<lparr>ev_ocrText := Some ''scanned text''\<rparr>),
        demo_store\<lparr>evidence_store := store_put ev_id (stored_ev\<lparr>ev_ocrText := Some ''scanned text''\<rparr>)
                                        (evidence_store demo_store)\<rparr>)
   \<and> store_get ev_id ''e1'' (evidence_store demo_store) = Some stored_ev
   \<and> map_option ev_sha512 (store_get ev_id ''e1'' (store_put ev_id
        (stored_ev\<lparr>ev_ocrText := Some ''scanned text''\<rparr>) (evidence_store demo_store)))
       = Some ''aa''"
proof -
  let ?ev = "stored_ev\<lparr>ev_ocrText := Some ''scanned text''\<rparr>"
  let ?st' = "demo_store\<lparr>evidence_store := store_put ev_id ?ev (evidence_store demo_store)\<rparr>"
  have u: "updateEvidence no_faults ?ev demo_store = (Inr ?ev, ?st')"
    by (simp add: updateEvidence_def no_faults_def)
  have i: "ev_id ?ev = ''e1''" "ev_sha512 stored_ev = ''aa''"
    by (simp_all add: stored_ev_def demo_evidence_def)
  have g: "store_get ev_id ''e1'' (evidence_store demo_store) = Some stored_ev"
    by (simp add: demo_store_def stored_ev_def store_get_def demo_evidence_def)
  from updateEvidence_stores_argument[OF u] g u show ?thesis
    unfolding i by (simp add: i)
qed


section \<open>The content fingerprint\<close>

definition lowerHex :: "char \<Rightarrow> bool" where
  "lowerHex c = (c \<in> set ''0123456789abcdef'')"

lemma hexDigit_lowerHex: "lowerHex (hexDigit d)"
  unfolding hexDigit_def lowerHex_def by (rule nth_mem) simp

lemma toString16_byte: 
  assumes "n < 256" shows "length (toString16 n) = (if n < 16 then 1 else 2)"
proof (cases "n < 16")
  case True then show ?thesis by (subst toString16.simps) simp
next
  case False
  with assms have "n div 16 < 16" by simp
  then have "toString16 (n div 16) = [hexDigit (n div 16)]" by (subst toString16.simps) simp
  with False show ?thesis by (subst toString16.simps) simp
qed

lemma toString16_chars: "\<forall>c \<in> set (toString16 n). lowerHex c"
proof (induction n rule: toString16.induct)
  case (1 n)
  show ?case using 1 hexDigit_lowerHex
    by (subst toString16.simps) auto
qed

lemma byte_hex_length: "length (padStart 2 CHR ''0'' (toString16 (unat (b::byte)))) = 2"
proof -
  have "unat b < 256" using unsigned_less[of b] by simp
  from toString16_byte[OF this] show ?thesis by (auto simp: padStart_def)
qed

lemma hashHex_length: "length (hashHex bs) = 2 * length bs"
  unfolding hashHex_def by (induction bs) (simp_all add: byte_hex_length)

lemma lowerHex_0: "lowerHex CHR ''0''"
  by (simp add: lowerHex_def)

lemma hashHex_chars: "\<forall>c \<in> set (hashHex bs). lowerHex c"
  unfolding hashHex_def padStart_def using toString16_chars lowerHex_0
  by auto

text \<open>
  C8. The fingerprint of a byte sequence is a function of the bytes alone (the hexadecimal
  rendering of the digest the platform computes for them; no state is read or written):
  it consists of two lower-case hexadecimal characters for each byte of the digest, hence
  of 128 for the 64 bytes of a SHA-512 digest.
\<close>

theorem calculateSHA512_digest:
  "calculateSHA512 digest (Blob (Inr bytes)) = Inr (hashHex (digest bytes))
   \<and> calculateSHA512 digest (Str s) = Inr (hashHex (digest (TextEncoder_encode s)))
   \<and> length (hashHex (digest bytes)) = 2 * length (digest bytes)
   \<and> (\<forall>c \<in> set (hashHex (digest bytes)). lowerHex c)
   \<and> (length (digest bytes) = 64 \<longrightarrow> length (hashHex (digest bytes)) = 128)"
  using hashHex_chars[of "digest bytes"]
  by (simp add: calculateSHA512_def hashHex_length)

theorem calculateSHA512_digest_witness:
  "length ((\<lambda>bs. replicate 64 (of_nat (length bs))) [7, 9 :: byte]) = 64
   \<and> length (hashHex ((\<lambda>bs. replicate 64 (of_nat (length bs))) [7, 9 :: byte])) = 128
   \<and> list_all lowerHex (hashHex ((\<lambda>bs. replicate 64 (of_nat (length bs))) [7, 9 :: byte]))"
  using calculateSHA512_digest[of "\<lambda>bs. replicate 64 (of_nat (length bs))" "[7, 9]"]
  by (simp add: list_all_iff)


section \<open>The shuffle is a permutation\<close>

lemma shuffle_from_mset:
  "i < length xs \<Longrightarrow> mset (fst (shuffle_from i rng xs)) = mset xs"
proof (induction i arbitrary: rng xs)
  case 0
  then show ?case by simp
next
  case (Suc i)
  let ?j = "rng 0 mod (Suc i + 1)"
  have "?j < Suc (Suc i)" by simp
  then have j: "?j < length xs" using Suc.prems by linarith
  have "mset (xs[Suc i := xs ! ?j, ?j := xs ! Suc i]) = mset xs"
    using Suc.prems j by (simp add: mset_swap)
  moreover have "i < length (xs[Suc i := xs ! ?j, ?j := xs ! Suc i])"
    using Suc.prems by simp
  ultimately show ?case using Suc.IH by (simp add: random_index_def)
qed

lemma shuffle_mset: "mset (fst (shuffle rng xs)) = mset xs"
proof (cases xs)
  case Nil
  then show ?thesis by (simp add: shuffle_def)
next
  case (Cons x xs')
  then show ?thesis unfolding shuffle_def by (intro shuffle_from_mset) simp
qed

section \<open>The tally of keys\<close>

lemma count_one_keys:
  "map fst (count_one m (key, c)) = (if key \<in> set (map fst m) then map fst m else map fst m @ [key])"
proof (induction m)
  case Nil then show ?case by simp
next
  case (Cons e m)
  obtain k c' n where e: "e = (k, c', n)" by (cases e)
  show ?case unfolding e using Cons.IH by (cases "k = key") simp_all
qed

lemma count_one_map_of:
  "map_of (count_one m (key, c)) k =
     (if k = key then (case map_of m key of None \<Rightarrow> Some (c, 1) | Some (c', n) \<Rightarrow> Some (c', n + 1))
      else map_of m k)"
  by (induction m) auto

definition tally_count :: "(string \<times> RawContradiction \<times> nat) list \<Rightarrow> string \<Rightarrow> nat" where
  "tally_count m k = (case map_of m k of None \<Rightarrow> 0 | Some (c, n) \<Rightarrow> n)"

lemma tally_keys:
  "set (map fst (foldl count_one m xs)) = set (map fst m) \<union> set (map fst xs)"
proof (induction xs arbitrary: m)
  case Nil then show ?case by simp
next
  case (Cons x xs)
  obtain key c where x: "x = (key, c)" by (cases x)
  show ?case unfolding x using Cons.IH[of "count_one m (key, c)"]
    by (auto simp: count_one_keys)
qed

lemma tally_distinct:
  "distinct (map fst m) \<Longrightarrow> distinct (map fst (foldl count_one m xs))"
proof (induction xs arbitrary: m)
  case Nil then show ?case by simp
next
  case (Cons x xs)
  obtain key c where x: "x = (key, c)" by (cases x)
  have "distinct (map fst (count_one m (key, c)))"
    using Cons.prems by (simp add: count_one_keys)
  then show ?case unfolding x using Cons.IH by simp
qed

lemma tally_counts:
  "(\<forall>k. k \<in> set (map fst m) \<longrightarrow> 0 < tally_count m k) \<Longrightarrow>
   tally_count (foldl count_one m xs) k = tally_count m k + count_list (map fst xs) k"
proof (induction xs arbitrary: m)
  case Nil then show ?case by simp
next
  case (Cons x xs)
  obtain key c where x: "x = (key, c)" by (cases x)
  have step: "tally_count (count_one m (key, c)) k' = tally_count m k' + (if k' = key then 1 else 0)" for k'
    by (auto simp: tally_count_def count_one_map_of split: option.splits)
  have pos: "\<forall>k. k \<in> set (map fst (count_one m (key, c))) \<longrightarrow> 0 < tally_count (count_one m (key, c)) k"
    using Cons.prems by (auto simp: step count_one_keys split: if_splits)
  show ?case unfolding x using Cons.IH[OF pos] by (simp add: step)
qed

lemma tally_entries:
  "(\<forall>(k, c, n) \<in> set m. P k c) \<Longrightarrow> (\<forall>(k, c) \<in> set xs. P k c) \<Longrightarrow>
   (\<forall>(k, c, n) \<in> set (foldl count_one m xs). P k c)"
proof (induction xs arbitrary: m)
  case Nil then show ?case by simp
next
  case (Cons x xs)
  obtain key c where x: "x = (key, c)" by (cases x)
  have one: "\<forall>(k, c, n) \<in> set (count_one m (key, c)). P k c"
    using Cons.prems(1) Cons.prems(2)[unfolded x]
    by (induction m) (auto split: if_splits)
  show ?case unfolding x using Cons.IH[OF one] Cons.prems(2) by simp
qed

lemma key_of_finalize: "key_of (finalize (k, c, n)) = key_of c"
  by (simp add: finalize_def key_of_def)

lemma finalize_fields:
  "c_type (finalize (k, c, n)) = c_type c" "c_sources (finalize (k, c, n)) = c_sources c"
  "c_explanation (finalize (k, c, n)) = c_explanation c"
  "c_verification (finalize (k, c, n)) = classify n"
  by (simp_all add: finalize_def)

lemma passes_keys: "(k, c) \<in> set (passes n env rng reports evidence) \<Longrightarrow> k = key_of c"
proof (induction n arbitrary: rng)
  case 0 then show ?case by simp
next
  case (Suc n)
  then show ?case by (auto simp: Let_def split: prod.splits)
qed

lemma passes_origin:
  "(k, c) \<in> set (passes n env rng reports evidence) \<Longrightarrow>
     \<exists>rs es. mset rs = mset reports \<and> mset es = mset evidence
        \<and> c \<in> set (analyzeContradictionsOnce env rs es)"
proof (induction n arbitrary: rng)
  case 0 then show ?case by simp
next
  case (Suc n)
  obtain rs rng1 where s1: "shuffle rng reports = (rs, rng1)" by fastforce
  obtain es rng2 where s2: "shuffle rng1 evidence = (es, rng2)" by fastforce
  have m: "mset rs = mset reports" "mset es = mset evidence"
    using shuffle_mset[of rng reports] shuffle_mset[of rng1 evidence] s1 s2 by simp_all
  from Suc.prems have "c \<in> set (analyzeContradictionsOnce env rs es)
      \<or> (k, c) \<in> set (passes n env rng2 reports evidence)"
    by (auto simp: s1 s2 Let_def)
  then show ?case using m Suc.IH by blast
qed

lemma passes_first:
  "\<exists>rs es. mset rs = mset reports \<and> mset es = mset evidence
     \<and> (\<forall>c \<in> set (analyzeContradictionsOnce env rs es).
          (key_of c, c) \<in> set (passes (Suc n) env rng reports evidence))"
proof -
  obtain rs rng1 where s1: "shuffle rng reports = (rs, rng1)" by fastforce
  obtain es rng2 where s2: "shuffle rng1 evidence = (es, rng2)" by fastforce
  have m: "mset rs = mset reports" "mset es = mset evidence"
    using shuffle_mset[of rng reports] shuffle_mset[of rng1 evidence] s1 s2 by simp_all
  have "\<forall>c \<in> set (analyzeContradictionsOnce env rs es).
          (key_of c, c) \<in> set (passes (Suc n) env rng reports evidence)"
    by (auto simp: s1 s2 Let_def)
  with m show ?thesis by blast
qed

definition tally :: "DateEnv \<Rightarrow> rng \<Rightarrow> Report list \<Rightarrow> Evidence list
    \<Rightarrow> (string \<times> RawContradiction \<times> nat) list" where
  "tally env rng reports evidence = foldl count_one [] (passes 3 env rng reports evidence)"

lemma run_tally: "runContradictionAnalysis env rng reports evidence = map finalize (tally env rng reports evidence)"
  by (simp add: runContradictionAnalysis_def tally_def)

lemma tally_key_of:
  "(k, c, n) \<in> set (tally env rng reports evidence) \<Longrightarrow>
     k = key_of c \<and> (k, c) \<in> set (passes 3 env rng reports evidence)"
proof -
  have "\<forall>(k, c, n) \<in> set (foldl count_one [] (passes 3 env rng reports evidence)).
          k = key_of c \<and> (k, c) \<in> set (passes 3 env rng reports evidence)"
    by (rule tally_entries) (auto dest: passes_keys)
  then show "(k, c, n) \<in> set (tally env rng reports evidence) \<Longrightarrow>
     k = key_of c \<and> (k, c) \<in> set (passes 3 env rng reports evidence)"
    unfolding tally_def by blast
qed

lemma tally_n:
  assumes "(k, c, n) \<in> set (tally env rng reports evidence)"
  shows "n = count_list (map fst (passes 3 env rng reports evidence)) k"
proof -
  have d: "distinct (map fst (tally env rng reports evidence))"
    unfolding tally_def by (rule tally_distinct) simp
  with assms have "map_of (tally env rng reports evidence) k = Some (c, n)" by simp
  then have "tally_count (tally env rng reports evidence) k = n" by (simp add: tally_count_def)
  moreover have "tally_count (tally env rng reports evidence) k
      = tally_count [] k + count_list (map fst (passes 3 env rng reports evidence)) k"
    unfolding tally_def by (rule tally_counts) simp
  ultimately show ?thesis by (simp add: tally_count_def)
qed

lemma run_keys: "map key_of (runContradictionAnalysis env rng reports evidence)
   = map fst (tally env rng reports evidence)"
  unfolding run_tally by (auto simp: key_of_finalize dest: tally_key_of)

lemma run_key_tally:
  "distinct (map key_of (runContradictionAnalysis env rng reports evidence))
   \<and> set (map key_of (runContradictionAnalysis env rng reports evidence))
       = set (map fst (passes 3 env rng reports evidence))
   \<and> (\<forall>c \<in> set (runContradictionAnalysis env rng reports evidence).
        c_verification c
          = classify (count_list (map fst (passes 3 env rng reports evidence)) (key_of c)))
   \<and> classify 3 = Verified_3_3 \<and> classify 2 = Consensus_2_3
   \<and> classify 1 = Inconclusive_1_3 \<and> classify 0 = Inconclusive_1_3"
proof (intro conjI)
  show "distinct (map key_of (runContradictionAnalysis env rng reports evidence))"
    unfolding run_keys tally_def by (rule tally_distinct) simp
  show "set (map key_of (runContradictionAnalysis env rng reports evidence))
       = set (map fst (passes 3 env rng reports evidence))"
    unfolding run_keys tally_def tally_keys by simp
  show "\<forall>c \<in> set (runContradictionAnalysis env rng reports evidence).
        c_verification c
          = classify (count_list (map fst (passes 3 env rng reports evidence)) (key_of c))"
  proof
    fix c assume "c \<in> set (runContradictionAnalysis env rng reports evidence)"
    then obtain k r n where e: "(k, r, n) \<in> set (tally env rng reports evidence)"
      and c: "c = finalize (k, r, n)" unfolding run_tally by auto
    from tally_key_of[OF e] tally_n[OF e] show "c_verification c
          = classify (count_list (map fst (passes 3 env rng reports evidence)) (key_of c))"
      unfolding c by (simp add: key_of_finalize finalize_fields)
  qed
qed (simp_all add: classify_def)


section \<open>The evidence in scope\<close>

definition refIds :: "Report list \<Rightarrow> string set" where
  "refIds reports = {k. \<exists>r \<in> set reports. \<exists>ref \<in> set (rep_evidenceRefs r). ref_id ref = k}"

definition scope_ok :: "(string \<rightharpoonup> Evidence) \<Rightarrow> Evidence list \<Rightarrow> bool" where
  "scope_ok M sc = (distinct (map ev_id sc) \<and> (\<forall>e \<in> set sc. M (ev_id e) = Some e))"

lemma addToScope_ok:
  assumes "scope_ok M sc" and "\<And>k e. M k = Some e \<Longrightarrow> ev_id e = k"
  shows "scope_ok M (addToScope M sc ref)
       \<and> set (addToScope M sc ref) = set sc \<union> {e. M (ref_id ref) = Some e}"
proof (cases "M (ref_id ref)")
  case None
  with assms show ?thesis by (simp add: addToScope_def)
next
  case (Some ev)
  have id: "ev_id ev = ref_id ref" using assms(2) Some by simp
  show ?thesis
  proof (cases "list_ex (\<lambda>e. ev_id e = ev_id ev) sc")
    case True
    then obtain e where e: "e \<in> set sc" "ev_id e = ev_id ev" by (auto simp: list_ex_iff)
    from assms(1) e(1) have "M (ev_id e) = Some e" unfolding scope_ok_def by blast
    with e(2) Some id have "e = ev" by simp
    with e have "ev \<in> set sc" by simp
    with True Some assms(1) show ?thesis by (auto simp: addToScope_def)
  next
    case False
    then have "ev_id ev \<notin> ev_id ` set sc" by (auto simp: list_ex_iff)
    with False Some assms(1) id show ?thesis
      by (auto simp: addToScope_def scope_ok_def)
  qed
qed

lemma addRefs_ok:
  assumes "\<And>k e. M k = Some e \<Longrightarrow> ev_id e = k"
  shows "scope_ok M sc \<Longrightarrow>
     scope_ok M (foldl (addToScope M) sc refs)
   \<and> set (foldl (addToScope M) sc refs)
       = set sc \<union> {e. \<exists>ref \<in> set refs. M (ref_id ref) = Some e}"
proof (induction refs arbitrary: sc)
  case Nil then show ?case by simp
next
  case (Cons ref refs)
  from addToScope_ok[OF Cons.prems assms, of ref]
  have ok: "scope_ok M (addToScope M sc ref)"
    and s: "set (addToScope M sc ref) = set sc \<union> {e. M (ref_id ref) = Some e}" by simp_all
  from Cons.IH[OF ok] show ?case unfolding foldl_Cons s by auto
qed

lemma addReports_ok:
  assumes "\<And>k e. M k = Some e \<Longrightarrow> ev_id e = k"
  shows "scope_ok M sc \<Longrightarrow>
     scope_ok M (foldl (\<lambda>scope r. foldl (addToScope M) scope (rep_evidenceRefs r)) sc reports)
   \<and> set (foldl (\<lambda>scope r. foldl (addToScope M) scope (rep_evidenceRefs r)) sc reports)
       = set sc \<union> {e. \<exists>k \<in> refIds reports. M k = Some e}"
proof (induction reports arbitrary: sc)
  case Nil then show ?case by (simp add: refIds_def)
next
  case (Cons r reports)
  from addRefs_ok[OF assms Cons.prems, of "rep_evidenceRefs r"]
  have ok: "scope_ok M (foldl (addToScope M) sc (rep_evidenceRefs r))"
    and s: "set (foldl (addToScope M) sc (rep_evidenceRefs r))
       = set sc \<union> {e. \<exists>ref \<in> set (rep_evidenceRefs r). M (ref_id ref) = Some e}" by simp_all
  have u: "{e. \<exists>k \<in> refIds (r # reports). M k = Some e}
      = {e. \<exists>ref \<in> set (rep_evidenceRefs r). M (ref_id ref) = Some e}
        \<union> {e. \<exists>k \<in> refIds reports. M k = Some e}"
    unfolding refIds_def by auto
  from Cons.IH[OF ok] show ?case unfolding foldl_Cons s u
    by (simp add: Un_assoc)
qed

lemma scope_set:
  "set (allEvidenceInScope reports evidence)
     = {e. \<exists>k \<in> refIds reports. Map_of ev_id evidence k = Some e}"
  and scope_distinct: "distinct (map ev_id (allEvidenceInScope reports evidence))"
proof -
  have ok: "scope_ok (Map_of ev_id evidence) []" by (simp add: scope_ok_def)
  have m: "\<And>k e. Map_of ev_id evidence k = Some e \<Longrightarrow> ev_id e = k"
    by (simp add: Map_of_Some)
  from addReports_ok[of "Map_of ev_id evidence" "[]" reports, OF m ok]
  show "set (allEvidenceInScope reports evidence)
     = {e. \<exists>k \<in> refIds reports. Map_of ev_id evidence k = Some e}"
    and "distinct (map ev_id (allEvidenceInScope reports evidence))"
    by (simp_all add: allEvidenceInScope_def scope_ok_def)
qed

lemma scope_ids:
  "ev_id ` set (allEvidenceInScope reports evidence) = refIds reports \<inter> ev_id ` set evidence"
proof -
  have "ev_id ` {e. \<exists>k \<in> refIds reports. Map_of ev_id evidence k = Some e}
      = {k \<in> refIds reports. Map_of ev_id evidence k \<noteq> None}"
  proof (intro set_eqI iffI)
    fix k assume "k \<in> ev_id ` {e. \<exists>k \<in> refIds reports. Map_of ev_id evidence k = Some e}"
    then obtain e k' where "k = ev_id e" "k' \<in> refIds reports" "Map_of ev_id evidence k' = Some e"
      by blast
    moreover from this have "ev_id e = k'" using Map_of_Some by fastforce
    ultimately show "k \<in> {k \<in> refIds reports. Map_of ev_id evidence k \<noteq> None}" by simp
  next
    fix k assume "k \<in> {k \<in> refIds reports. Map_of ev_id evidence k \<noteq> None}"
    then obtain e where e: "k \<in> refIds reports" "Map_of ev_id evidence k = Some e" by blast
    then have "ev_id e = k" using Map_of_Some by fastforce
    with e show "k \<in> ev_id ` {e. \<exists>k \<in> refIds reports. Map_of ev_id evidence k = Some e}"
      by blast
  qed
  then show ?thesis unfolding scope_set Map_of_dom by blast
qed

lemma scope_length:
  "length (allEvidenceInScope reports evidence) = card (refIds reports \<inter> ev_id ` set evidence)"
proof -
  have "length (allEvidenceInScope reports evidence)
      = length (map ev_id (allEvidenceInScope reports evidence))" by simp
  also have "\<dots> = card (set (map ev_id (allEvidenceInScope reports evidence)))"
    using scope_distinct by (metis distinct_card)
  finally show ?thesis by (simp add: scope_ids)
qed

lemma refIds_perm: "mset rs = mset reports \<Longrightarrow> refIds rs = refIds reports"
  unfolding refIds_def by (metis set_mset_mset)

lemma scope_length_perm:
  "mset rs = mset reports \<Longrightarrow> mset es = mset evidence \<Longrightarrow>
     length (allEvidenceInScope rs es) = length (allEvidenceInScope reports evidence)"
  unfolding scope_length by (metis refIds_perm set_mset_mset)

lemma Map_of_distinct:
  assumes "distinct (map key xs)"
  shows "(Map_of key xs k = Some x) = (x \<in> set xs \<and> key x = k)"
proof -
  have d: "distinct (map fst (rev (map (\<lambda>x. (key x, x)) xs)))"
    using assms by (simp add: rev_map[symmetric] comp_def)
  show ?thesis unfolding Map_of_def using map_of_eq_Some_iff[OF d] by auto
qed

lemma scope_set_perm:
  assumes "distinct (map ev_id evidence)" "mset rs = mset reports" "mset es = mset evidence"
  shows "set (allEvidenceInScope rs es) = set (allEvidenceInScope reports evidence)"
proof -
  have d: "distinct (map ev_id es)"
    using assms(1,3) by (metis distinct_map mset_eq_setD mset_eq_imp_distinct_iff)
  have s: "set es = set evidence" using assms(3) by (rule mset_eq_setD)
  show ?thesis unfolding scope_set Map_of_distinct[OF d] Map_of_distinct[OF assms(1)] s
      refIds_perm[OF assms(2)] ..
qed

lemma scope_subset: "set (allEvidenceInScope reports evidence) \<subseteq> set evidence"
  unfolding scope_set by (auto dest: Map_of_Some)

section \<open>What one pass produces\<close>

lemma crossDocDrift_type: "c \<in> set (crossDocDrift a b) \<Longrightarrow> c_type c = cross_doc_drift"
  by (auto simp: crossDocDrift_def driftRecord_def Let_def split: if_splits)

lemma pairLoop_type: "c \<in> set (pairLoop sc) \<Longrightarrow> c_type c = cross_doc_drift"
  by (auto simp: pairLoop_def dest: crossDocDrift_type)

lemma pairLoop_short: "length sc < 2 \<Longrightarrow> pairLoop sc = []"
proof -
  assume "length sc < 2"
  then have "length sc = 0 \<or> length sc = 1" by linarith
  then show ?thesis by (auto simp: pairLoop_def)
qed

lemma textRules_type:
  "c \<in> set (textRules env sc e) \<Longrightarrow> c_type c = metadata_mismatch \<or> c_type c = omission"
  by (auto simp: textRules_def metadataMismatch_def mismatchRecord_def omissionOf_def
      omissionRecord_def Let_def split: option.splits if_splits)

lemma analyze_drift:
  "c \<in> set (analyzeContradictionsOnce env rs es) \<Longrightarrow> c_type c = cross_doc_drift \<Longrightarrow>
     c \<in> set (pairLoop (allEvidenceInScope rs es))"
  by (auto simp: analyzeContradictionsOnce_def Let_def dest: textRules_type)

lemma analyze_empty:
  "allEvidenceInScope rs es = [] \<Longrightarrow> analyzeContradictionsOnce env rs es = []"
  by (simp add: analyzeContradictionsOnce_def pairLoop_def)

lemma run_origin:
  assumes "c \<in> set (runContradictionAnalysis env rng reports evidence)"
  shows "\<exists>raw rs es n. mset rs = mset reports \<and> mset es = mset evidence
     \<and> raw \<in> set (analyzeContradictionsOnce env rs es) \<and> c = finalize (key_of raw, raw, n)"
proof -
  from assms obtain k raw n where e: "(k, raw, n) \<in> set (tally env rng reports evidence)"
    and c: "c = finalize (k, raw, n)" unfolding run_tally by auto
  from tally_key_of[OF e] passes_origin[of k raw 3 env rng reports evidence] c
  show ?thesis by blast
qed

text \<open>
  C6, amended. With no evidence in scope the result is empty; with fewer than two items in
  scope the result has no cross-document-drift contradiction (the detectors that read the
  text of a single item still run). The function is total: it returns a list in all cases.
\<close>

theorem runContradictionAnalysis_small_scope:
  "(allEvidenceInScope reports evidence = [] \<longrightarrow>
      runContradictionAnalysis env rng reports evidence = [])
   \<and> (length (allEvidenceInScope reports evidence) < 2 \<longrightarrow>
      (\<forall>c \<in> set (runContradictionAnalysis env rng reports evidence). c_type c \<noteq> cross_doc_drift))"
proof (intro conjI impI ballI)
  assume e: "allEvidenceInScope reports evidence = []"
  show "runContradictionAnalysis env rng reports evidence = []"
  proof (rule ccontr)
    assume "runContradictionAnalysis env rng reports evidence \<noteq> []"
    then obtain c where "c \<in> set (runContradictionAnalysis env rng reports evidence)"
      by (meson last_in_set)
    from run_origin[OF this] obtain raw rs es where p: "mset rs = mset reports" "mset es = mset evidence"
      and r: "raw \<in> set (analyzeContradictionsOnce env rs es)" by blast
    from scope_length_perm[OF p] e have "allEvidenceInScope rs es = []" by simp
    from analyze_empty[OF this] r show False by simp
  qed
next
  fix c
  assume l: "length (allEvidenceInScope reports evidence) < 2"
    and c: "c \<in> set (runContradictionAnalysis env rng reports evidence)"
  from run_origin[OF c] obtain raw rs es n where p: "mset rs = mset reports" "mset es = mset evidence"
    and r: "raw \<in> set (analyzeContradictionsOnce env rs es)"
    and f: "c = finalize (key_of raw, raw, n)" by blast
  show "c_type c \<noteq> cross_doc_drift"
  proof
    assume "c_type c = cross_doc_drift"
    then have "c_type raw = cross_doc_drift" unfolding f by (simp add: finalize_fields)
    from analyze_drift[OF r this] pairLoop_short[of "allEvidenceInScope rs es"]
      scope_length_perm[OF p] l show False by simp
  qed
qed


section \<open>A run on two versions of a statement\<close>

text \<open>An environment of the \<open>en-US\<close> locale in UTC, on the dates of the examples.\<close>

definition demo_env :: DateEnv where
  "demo_env =
     \<lparr>Date_parse = map_of [(''1/1/2030'', 1893456000000), (''1/2/2030'', 1893542400000),
                             (''5/1/2026'', 1777593600000)],
      toLocaleDateString = (\<lambda>t. if t = 1893456000000 then ''1/1/2030''
                                  else if t = 1893542400000 then ''1/2/2030''
                                  else if t = 1777593600000 then ''5/1/2026''
                                  else ''6/1/2026'')\<rparr>"

definition always_swap :: rng where
  "always_swap = (\<lambda>k. 0)"

definition keep_first :: rng where
  "keep_first = (\<lambda>k. if k = 0 then 1 else 0)"

definition statement_v1 :: Evidence where
  "statement_v1 = demo_evidence ''5f0c1a2e-0000-4000-8000-00000000000a'' ''statement.pdf'' ''aa'' 5 None"

definition statement_v2 :: Evidence where
  "statement_v2 = demo_evidence ''5f0c1a2e-0000-4000-8000-00000000000b'' ''statement_v2.pdf'' ''bb'' 6 None"

definition report_v1 :: Report where
  "report_v1 = demo_report ''r1'' 1 [''5f0c1a2e-0000-4000-8000-00000000000a'']"

definition report_v2 :: Report where
  "report_v2 = demo_report ''r2'' 2 [''5f0c1a2e-0000-4000-8000-00000000000b'']"


lemma shuffle_always_swap: "shuffle always_swap [a, b] = ([b, a], always_swap)"
  by (simp add: shuffle_def random_index_def always_swap_def)

lemma shuffle_keep_first: "shuffle keep_first [a, b] = ([a, b], always_swap)"
  by (simp add: shuffle_def random_index_def always_swap_def keep_first_def)

lemma statement_names:
  "normalizedName statement_v1 = ''statement''" "normalizedName statement_v2 = ''statement_v2''"
  by code_simp+

lemma statement_fields:
  "ev_sha512 statement_v1 = ''aa''" "ev_sha512 statement_v2 = ''bb''"
  "ev_name statement_v1 = ''statement.pdf''" "ev_name statement_v2 = ''statement_v2.pdf''"
  "ev_ocrText statement_v1 = None" "ev_ocrText statement_v2 = None"
  "ev_id statement_v1 = ''5f0c1a2e-0000-4000-8000-00000000000a''"
  "ev_id statement_v2 = ''5f0c1a2e-0000-4000-8000-00000000000b''"
  by (simp_all add: statement_v1_def statement_v2_def demo_evidence_def)

lemma statement_drift:
  "crossDocDrift statement_v1 statement_v2 = [driftRecord statement_v1 statement_v2]"
  "crossDocDrift statement_v2 statement_v1 = [driftRecord statement_v2 statement_v1]"
  by (simp_all add: crossDocDrift_def statement_names statement_fields)

lemma statement_scope:
  "allEvidenceInScope [report_v1, report_v2] [statement_v2, statement_v1] = [statement_v1, statement_v2]"
  "allEvidenceInScope [report_v2, report_v1] [statement_v2, statement_v1] = [statement_v2, statement_v1]"
  "allEvidenceInScope [report_v1, report_v2] [statement_v1, statement_v2] = [statement_v1, statement_v2]"
  by (simp_all add: allEvidenceInScope_def Map_of_def addToScope_def statement_fields
      report_v1_def report_v2_def demo_report_def)

lemma statement_pass:
  "analyzeContradictionsOnce env [report_v1, report_v2] [statement_v2, statement_v1]
     = [driftRecord statement_v1 statement_v2]"
  "analyzeContradictionsOnce env [report_v2, report_v1] [statement_v2, statement_v1]
     = [driftRecord statement_v2 statement_v1]"
  "analyzeContradictionsOnce env [report_v1, report_v2] [statement_v1, statement_v2]
     = [driftRecord statement_v1 statement_v2]"
  by (simp_all add: analyzeContradictionsOnce_def statement_scope pairLoop_def upt_rec
      statement_drift hasText_def statement_fields)

lemma statement_keys:
  "key_of (driftRecord statement_v1 statement_v2) \<noteq> key_of (driftRecord statement_v2 statement_v1)"
  by (simp add: key_of_def driftRecord_def statement_fields type_name_def)

lemma statement_passes_keep_first:
  "passes 3 env keep_first [report_v1, report_v2] [statement_v1, statement_v2]
     = [(key_of (driftRecord statement_v1 statement_v2), driftRecord statement_v1 statement_v2),
        (key_of (driftRecord statement_v2 statement_v1), driftRecord statement_v2 statement_v1),
        (key_of (driftRecord statement_v2 statement_v1), driftRecord statement_v2 statement_v1)]"
  by (simp add: numeral_3_eq_3 shuffle_keep_first shuffle_always_swap statement_pass)

lemma statement_run_keep_first:
  "runContradictionAnalysis env keep_first [report_v1, report_v2] [statement_v1, statement_v2]
     = [finalize (key_of (driftRecord statement_v1 statement_v2), driftRecord statement_v1 statement_v2, 1),
        finalize (key_of (driftRecord statement_v2 statement_v1), driftRecord statement_v2 statement_v1, 2)]"
  unfolding runContradictionAnalysis_def statement_passes_keep_first Let_def
  using statement_keys by (simp add: eval_nat_numeral)


lemma statement_passes_always_swap:
  "passes 3 env always_swap [report_v1, report_v2] [statement_v1, statement_v2]
     = [(key_of (driftRecord statement_v2 statement_v1), driftRecord statement_v2 statement_v1),
        (key_of (driftRecord statement_v2 statement_v1), driftRecord statement_v2 statement_v1),
        (key_of (driftRecord statement_v2 statement_v1), driftRecord statement_v2 statement_v1)]"
  "passes 3 env always_swap [report_v2, report_v1] [statement_v1, statement_v2]
     = [(key_of (driftRecord statement_v1 statement_v2), driftRecord statement_v1 statement_v2),
        (key_of (driftRecord statement_v1 statement_v2), driftRecord statement_v1 statement_v2),
        (key_of (driftRecord statement_v1 statement_v2), driftRecord statement_v1 statement_v2)]"
  by (simp_all add: numeral_3_eq_3 shuffle_always_swap statement_pass)

lemma statement_run_always_swap:
  "runContradictionAnalysis env always_swap [report_v1, report_v2] [statement_v1, statement_v2]
     = [finalize (key_of (driftRecord statement_v2 statement_v1), driftRecord statement_v2 statement_v1, 3)]"
  unfolding runContradictionAnalysis_def statement_passes_always_swap Let_def
  by (simp add: eval_nat_numeral)

lemma statement_run_permuted:
  "runContradictionAnalysis env always_swap [report_v2, report_v1] [statement_v1, statement_v2]
     = [finalize (key_of (driftRecord statement_v1 statement_v2), driftRecord statement_v1 statement_v2, 3)]"
  unfolding runContradictionAnalysis_def statement_passes_always_swap Let_def
  by (simp add: eval_nat_numeral)

text \<open>
  C2 fails on the code: the explanation of a cross-document-drift contradiction names the
  two files in the order in which the pass met them, and the key contains the explanation.
  On two reports that each reference one version of a statement, a run whose three shuffles
  agree returns one key with the tier Verified, and a run whose first shuffle differs
  returns two keys with the tiers Inconclusive and Consensus; the same draws on the
  permuted report list return the other key.
\<close>

theorem runContradictionAnalysis_depends_on_order:
  "set (map (\<lambda>c. (key_of c, c_verification c))
        (runContradictionAnalysis demo_env always_swap [report_v1, report_v2] [statement_v1, statement_v2]))
   \<noteq> set (map (\<lambda>c. (key_of c, c_verification c))
        (runContradictionAnalysis demo_env keep_first [report_v1, report_v2] [statement_v1, statement_v2]))
   \<and> set (map (\<lambda>c. (key_of c, c_verification c))
        (runContradictionAnalysis demo_env always_swap [report_v1, report_v2] [statement_v1, statement_v2]))
   \<noteq> set (map (\<lambda>c. (key_of c, c_verification c))
        (runContradictionAnalysis demo_env always_swap [report_v2, report_v1] [statement_v1, statement_v2]))"
  using statement_keys
  by (simp add: statement_run_always_swap statement_run_keep_first statement_run_permuted
      key_of_finalize finalize_fields classify_def)

text \<open>
  C5 fails on the code for the same reason: on that input, a run whose first shuffle differs
  from the other two returns two cross-document-drift contradictions, both with the two
  evidence ids as their sources.
\<close>

theorem runContradictionAnalysis_two_drift_records:
  "map (\<lambda>c. (c_type c, c_sources c, c_verification c))
     (runContradictionAnalysis demo_env keep_first [report_v1, report_v2] [statement_v1, statement_v2])
   = [(cross_doc_drift, [ev_id statement_v1, ev_id statement_v2], Inconclusive_1_3),
      (cross_doc_drift, [ev_id statement_v2, ev_id statement_v1], Consensus_2_3)]"
  by (simp add: statement_run_keep_first finalize_fields driftRecord_def classify_def)

section \<open>What a pattern can match\<close>

fun lang :: "bool \<Rightarrow> regex \<Rightarrow> string set" where
  "lang ic (Class c) = {[x] | x. cls_match ic c x}"
| "lang ic (Lit w) = {v. map (canonicalize ic) v = map (canonicalize ic) w}"
| "lang ic (Seq a b) = {u @ v | u v. u \<in> lang ic a \<and> v \<in> lang ic b}"
| "lang ic (Alt a b) = lang ic a \<union> lang ic b"
| "lang ic (Rep lo hi c) =
     {w. lo \<le> length w \<and> (case hi of None \<Rightarrow> True | Some h \<Rightarrow> length w \<le> h)
         \<and> (\<forall>x \<in> set w. cls_match ic c x)}"
| "lang ic WordBoundary = {[]}"
| "lang ic EndOfInput = {[]}"
| "lang ic (Group g r) = lang ic r"

lemma substring_split:
  assumes "p \<le> m" "m \<le> e"
  shows "substring s p e = substring s p m @ substring s m e"
proof -
  have "e - p = (m - p) + (e - m)" using assms by simp
  then have "take (e - p) (drop p s)
      = take (m - p) (drop p s) @ take (e - m) (drop (m - p) (drop p s))"
    by (simp only: take_add)
  then show ?thesis using assms by (simp add: substring_def)
qed

lemma substring_self: "substring s p p = []"
  by (simp add: substring_def)

lemma substring_sublist:
  "p \<le> e \<Longrightarrow> e \<le> length s \<Longrightarrow> \<exists>pre post. s = pre @ substring s p e @ post"
proof -
  assume "p \<le> e" "e \<le> length s"
  have "s = take p s @ (take (e - p) (drop p s) @ drop (e - p) (drop p s))"
    by (simp only: append_take_drop_id)
  then show ?thesis unfolding substring_def by blast
qed

lemma run_lang:
  "(e, cs') \<in> set (run ic s r (p, cs)) \<Longrightarrow> p \<le> length s \<Longrightarrow> substring s p e \<in> lang ic r"
proof (induction r arbitrary: p cs e cs')
  case (Class c)
  then have "p < length s" "cls_match ic c (s ! p)" "e = Suc p" by (auto split: if_splits)
  then have "substring s p e = [s ! p]"
    by (simp add: substring_def take_Suc_conv_app_nth[of 0, simplified] hd_drop_conv_nth take_Suc)
  with \<open>cls_match ic c (s ! p)\<close> show ?case by simp
next
  case (Lit w)
  then have m: "map (canonicalize ic) (take (length w) (drop p s)) = map (canonicalize ic) w"
    and e: "e = p + length w" by (auto split: if_splits)
  show ?case unfolding e using m by (simp add: substring_def)
next
  case (Seq a b)
  from Seq.prems(1) obtain m cm where a: "(m, cm) \<in> set (run ic s a (p, cs))"
    and b: "(e, cs') \<in> set (run ic s b (m, cm))" by auto
  from run_bounds[OF a Seq.prems(2)] have pm: "p \<le> m" "m \<le> length s" by simp_all
  from run_bounds[OF b pm(2)] have me: "m \<le> e" by simp
  from Seq.IH(1)[OF a Seq.prems(2)] Seq.IH(2)[OF b pm(2)] substring_split[OF pm(1) me, of s]
  show ?case by auto
next
  case (Alt a b)
  then show ?case by auto
next
  case (Rep lo hi c)
  let ?n = "length (takeWhile (cls_match ic c) (drop p s))"
  let ?m = "case hi of None \<Rightarrow> ?n | Some h \<Rightarrow> min h ?n"
  from Rep.prems(1) obtain k where k: "e = p + k" "lo \<le> k" "k \<le> ?m"
    by (auto simp: Let_def)
  have kn: "k \<le> ?n" using k(3) by (cases hi) auto
  have t: "take k (drop p s) = take k (takeWhile (cls_match ic c) (drop p s))"
    using kn by (metis takeWhile_dropWhile_id take_append diff_is_0_eq take_0 append_Nil2)
  have l: "length (take k (drop p s)) = k" unfolding t using kn by simp
  have a: "\<forall>x \<in> set (take k (drop p s)). cls_match ic c x"
    unfolding t by (meson in_set_takeD set_takeWhileD)
  have h: "case hi of None \<Rightarrow> True | Some h \<Rightarrow> k \<le> h" using k(3) by (cases hi) auto
  have sub: "substring s p (p + k) = take k (drop p s)" by (simp add: substring_def)
  show ?case unfolding k(1) sub using l a h k(2) by (cases hi) simp_all
next
  case WordBoundary
  then show ?case by (auto simp: substring_self split: if_splits)
next
  case EndOfInput
  then show ?case by (auto simp: substring_self split: if_splits)
next
  case (Group g r)
  then show ?case by auto
qed

lemma regex_exec_run:
  "regex_exec ic r s i = Some (p, e, cs) \<Longrightarrow>
     p \<le> length s \<and> (e, cs) \<in> set (run ic s r (p, []))"
proof (induction ic r s i rule: regex_exec.induct)
  case (1 ic r s i)
  show ?case
  proof (cases "run ic s r (i, [])")
    case Nil
    with 1 show ?thesis by (subst (asm) (2) regex_exec.simps) (auto split: if_splits)
  next
    case (Cons x xs)
    obtain e' cs' where x: "x = (e', cs')" by (cases x)
    with Cons 1(2) have "\<not> length s < i" "p = i" "e = e'" "cs = cs'"
      by (subst (asm) regex_exec.simps, simp split: if_splits)+
    then show ?thesis using Cons x by simp
  qed
qed

lemma match_all_elems:
  "(p, e, cs) \<in> set (match_all ic r s i) \<Longrightarrow> \<exists>j. regex_exec ic r s j = Some (p, e, cs)"
proof (induction ic r s i rule: match_all.induct)
  case (1 ic r s lastIndex)
  show ?case
  proof (cases "regex_exec ic r s lastIndex")
    case None
    with 1(2) show ?thesis by (subst (asm) match_all.simps) simp
  next
    case (Some m)
    obtain i' e' cs' where m: "m = (i', e', cs')" by (cases m)
    from 1(2) have "(p, e, cs) = (i', e', cs')
        \<or> (p, e, cs) \<in> set (match_all ic r s (if e' = i' then Suc e' else e'))"
      by (subst (asm) match_all.simps) (simp add: Some m)
    moreover have "(p, e, cs) \<in> set (match_all ic r s (if e' = i' then Suc e' else e'))
        \<Longrightarrow> \<exists>j. regex_exec ic r s j = Some (p, e, cs)"
      by (rule 1(1)[of m i' "(e', cs')" e' cs']) (simp_all add: Some m)
    ultimately show ?thesis using Some m by blast
  qed
qed

lemma match_all_lang:
  assumes "(p, e, cs) \<in> set (match_all ic r s i)"
  shows "substring s p e \<in> lang ic r \<and> p \<le> e \<and> e \<le> length s"
proof -
  from match_all_elems[OF assms] obtain j where j: "regex_exec ic r s j = Some (p, e, cs)" ..
  from regex_exec_run[OF j] regex_exec_bounds[OF j] run_lang[of e cs ic s r p "[]"]
  show ?thesis by simp
qed


section \<open>The dates the metadata detector recognises\<close>

definition isDigit :: "char \<Rightarrow> bool" where
  "isDigit c = in_range CHR ''0'' CHR ''9'' c"

definition digit_value :: "char \<Rightarrow> nat" where
  "digit_value c = of_char c - 48"

definition number_of :: "string \<Rightarrow> nat" where
  "number_of s = foldl (\<lambda>n c. 10 * n + digit_value c) 0 s"

text \<open>The numeric slash form: a month \<open>1..12\<close> and a day \<open>1..31\<close> of one or two digits and
  a year of four digits, separated by slashes.\<close>

definition slash_date :: "string \<Rightarrow> bool" where
  "slash_date d =
     (\<exists>m dd y. d = m @ ''/'' @ dd @ ''/'' @ y
        \<and> (\<forall>c \<in> set (m @ dd @ y). isDigit c)
        \<and> length m \<in> {1, 2} \<and> length dd \<in> {1, 2} \<and> length y = 4
        \<and> number_of m \<in> {1..12} \<and> number_of dd \<in> {1..31})"

lemma in_range_nat:
  "in_range lo hi c = (of_char lo \<le> (of_char c :: nat) \<and> (of_char c :: nat) \<le> of_char hi)"
  by (simp add: in_range_def less_eq_char_def)

lemma cls_single: "in_class False [(lo, hi)] x = in_range lo hi x"
  by (simp add: in_class_def in_ranges_def)

lemma cls_two: "in_class False [(a, b), (c, d)] x = (in_range a b x \<or> in_range c d x)"
  by (simp add: in_class_def in_ranges_def)

lemma lit_lang: "lang False (Lit w) = {w}"
proof -
  have "canonicalize False = (\<lambda>c. c)" by (rule ext) (simp add: canonicalize_def)
  then show ?thesis by auto
qed

lemma opt_lang: "v \<in> lang False (opt c) \<Longrightarrow> v = [] \<or> v = [c]"
proof -
  assume "v \<in> lang False (opt c)"
  then have l: "length v \<le> 1" and a: "\<forall>x \<in> set v. in_range c c x"
    by (simp_all add: opt_def cls_single)
  show ?thesis
  proof (cases v)
    case Nil then show ?thesis by simp
  next
    case (Cons x xs)
    with l have "xs = []" by simp
    moreover from a Cons have "c \<le> x" "x \<le> c" by (simp_all add: in_range_def)
    then have "x = c" by (rule order.antisym[rotated])
    ultimately show ?thesis using Cons by simp
  qed
qed

lemma number_of_simps:
  "number_of [x] = digit_value x" "number_of [x, y] = 10 * digit_value x + digit_value y"
  by (simp_all add: number_of_def)

lemma month_lang:
  assumes "g \<in> lang False monthPattern"
  shows "(\<forall>c \<in> set g. isDigit c) \<and> length g \<in> {1, 2} \<and> number_of g \<in> {1..12}"
proof -
  from assms consider
      x where "g = [x]" "in_range CHR ''1'' CHR ''9'' x"
    | x where "g = [CHR ''0'', x]" "in_range CHR ''1'' CHR ''9'' x"
    | x where "g = [CHR ''1'', x]" "in_range CHR ''0'' CHR ''2'' x"
    by (auto simp: monthPattern_def canonicalize_def cls_single dest!: opt_lang)
  then show ?thesis
    by cases (auto simp: isDigit_def in_range_nat number_of_simps digit_value_def)
qed

lemma day_lang:
  assumes "g \<in> lang False dayPattern"
  shows "(\<forall>c \<in> set g. isDigit c) \<and> length g \<in> {1, 2} \<and> number_of g \<in> {1..31}"
proof -
  from assms consider
      x where "g = [x]" "in_range CHR ''1'' CHR ''9'' x"
    | x where "g = [CHR ''0'', x]" "in_range CHR ''1'' CHR ''9'' x"
    | x y where "g = [x, y]" "in_range CHR ''1'' CHR ''2'' x" "in_range CHR ''0'' CHR ''9'' y"
    | x where "g = [CHR ''3'', x]" "in_range CHR ''0'' CHR ''1'' x"
    by (auto simp: dayPattern_def canonicalize_def cls_single cls_two in_range_nat dest!: opt_lang)
  then show ?thesis
    by cases (auto simp: isDigit_def in_range_nat number_of_simps digit_value_def)
qed

lemma year_lang:
  "y \<in> lang False (Rep 4 (Some 4) digit) \<Longrightarrow> length y = 4 \<and> (\<forall>c \<in> set y. isDigit c)"
  by (auto simp: digit_def cls_single isDigit_def)

lemma lang_SeqE:
  assumes "w \<in> lang ic (Seq a b)"
  obtains u v where "w = u @ v" "u \<in> lang ic a" "v \<in> lang ic b"
  using assms by auto

lemma dateRegex_lang:
  assumes "d \<in> lang False dateRegex"
  shows "slash_date d"
proof -
  from assms obtain b m s1 dd s2 y e where d: "d = b @ m @ s1 @ dd @ s2 @ y @ e"
    and p: "b \<in> lang False WordBoundary" "m \<in> lang False (Group 1 monthPattern)"
      "s1 \<in> lang False (Lit ''/'')" "dd \<in> lang False (Group 2 dayPattern)"
      "s2 \<in> lang False (Lit ''/'')" "y \<in> lang False (Rep 4 (Some 4) digit)"
      "e \<in> lang False WordBoundary"
    unfolding dateRegex_def by (elim lang_SeqE) blast
  from p(1,3,5,7) have "b = []" "s1 = ''/''" "s2 = ''/''" "e = []"
    unfolding lit_lang by simp_all
  with d have d': "d = m @ ''/'' @ dd @ ''/'' @ y" by simp
  from p(2,4) have "m \<in> lang False monthPattern" "dd \<in> lang False dayPattern" by simp_all
  from month_lang[OF this(1)] day_lang[OF this(2)] year_lang[OF p(6)] d' show ?thesis
    unfolding slash_date_def by (intro exI[of _ m] exI[of _ dd] exI[of _ y]) auto
qed

lemma mentionedDates_slash:
  assumes "d \<in> set (mentionedDates t)"
  shows "slash_date d \<and> (\<exists>pre post. t = pre @ d @ post)"
proof -
  from assms obtain p e cs where m: "(p, e, cs) \<in> set (match_all False dateRegex t 0)"
    and d: "d = substring t p e" by (auto simp: mentionedDates_def)
  from match_all_lang[OF m] dateRegex_lang substring_sublist[of p e t] show ?thesis
    unfolding d by blast
qed


section \<open>The records of one pass\<close>

lemma dropWhile_keeps:
  "c \<in> set s \<Longrightarrow> \<not> P c \<Longrightarrow> c \<in> set (dropWhile P s)"
  by (induction s) auto

lemma trim_nonempty: "c \<in> set s \<Longrightarrow> \<not> isSpace c \<Longrightarrow> trim s \<noteq> []"
proof -
  assume c: "c \<in> set s" "\<not> isSpace c"
  then have "c \<in> set (rev (dropWhile isSpace s))" by (simp add: dropWhile_keeps)
  then have "c \<in> set (dropWhile isSpace (rev (dropWhile isSpace s)))"
    using c(2) by (rule dropWhile_keeps)
  then have "dropWhile isSpace (rev (dropWhile isSpace s)) \<noteq> []" by force
  then show ?thesis unfolding trim_def using rev_is_Nil_conv by blast
qed

lemma slash_not_space: "\<not> isSpace CHR ''/''"
  by (simp add: isSpace_def in_range_def)

lemma mentionedDates_hasText:
  assumes "d \<in> set (mentionedDates t)" "ev_ocrText e = Some t"
  shows "hasText e"
proof -
  from mentionedDates_slash[OF assms(1)] obtain pre post m dd y
    where "t = pre @ d @ post" "d = m @ ''/'' @ dd @ ''/'' @ y"
    unfolding slash_date_def by blast
  then have s: "CHR ''/'' \<in> set t" by simp
  from trim_nonempty[OF s slash_not_space] s assms(2) show ?thesis
    by (auto simp: hasText_def)
qed

definition futureDates :: "DateEnv \<Rightarrow> Evidence \<Rightarrow> timestamp set" where
  "futureDates env e =
     {ts. \<exists>t d. ev_ocrText e = Some t \<and> d \<in> set (mentionedDates t)
            \<and> Date_parse env d = Some ts \<and> ts > ev_createdAt e}"

lemma metadataMismatch_set:
  "set (metadataMismatch env e d)
     = {mismatchRecord env e ts | ts. Date_parse env d = Some ts \<and> ts > ev_createdAt e}"
  by (auto simp: metadataMismatch_def split: option.splits)

lemma mismatchRecord_fields:
  "c_type (mismatchRecord env e ts) = metadata_mismatch"
  "c_sources (mismatchRecord env e ts) = [ev_id e]"
  "c_explanation (mismatchRecord env e ts) = ''The document content mentions a future date (''
      @ toLocaleDateString env ts @ '') relative to its creation date (''
      @ toLocaleDateString env (ev_createdAt e) @ '').''"
  by (simp_all add: mismatchRecord_def Let_def)

lemma omissionRecord_fields:
  "c_type (omissionRecord e m2) = omission" "c_sources (omissionRecord e m2) = [ev_id e]"
  by (simp_all add: omissionRecord_def)

lemma driftRecord_fields:
  "c_type (driftRecord a b) = cross_doc_drift" "c_sources (driftRecord a b) = [ev_id a, ev_id b]"
  by (simp_all add: driftRecord_def)

lemma textRules_mm:
  "{c \<in> set (textRules env sc e). c_type c = metadata_mismatch}
     = mismatchRecord env e ` futureDates env e"
proof -
  have om: "\<And>c m2. c \<in> set (omissionOf sc e m2) \<Longrightarrow> c_type c = omission"
    by (auto simp: omissionOf_def Let_def omissionRecord_fields split: if_splits)
  show ?thesis
  proof (cases "ev_ocrText e")
    case None
    have "mentionedDates [] = []"
      by (simp add: mentionedDates_def match_all.simps regex_exec.simps dateRegex_def wordAt_def)
    with None show ?thesis
      by (auto simp: textRules_def futureDates_def dest!: om)
  next
    case (Some t)
    then show ?thesis
      by (auto simp: textRules_def futureDates_def metadataMismatch_set mismatchRecord_fields
          dest!: om)
  qed
qed

lemma pairLoop_elems:
  "c \<in> set (pairLoop sc) \<Longrightarrow> \<exists>a \<in> set sc. \<exists>b \<in> set sc. c = driftRecord a b"
proof -
  assume "c \<in> set (pairLoop sc)"
  then obtain i j where ij: "i < j" "j < length sc" "c \<in> set (crossDocDrift (sc ! i) (sc ! j))"
    by (auto simp: pairLoop_def Suc_le_eq)
  then have "i < length sc" by simp
  moreover from ij have "c = driftRecord (sc ! i) (sc ! j)"
    by (auto simp: crossDocDrift_def Let_def split: if_splits)
  ultimately show ?thesis using ij(2) nth_mem by blast
qed

lemma textRules_elems:
  "c \<in> set (textRules env sc e) \<Longrightarrow>
     (\<exists>ts. c = mismatchRecord env e ts) \<or> (\<exists>m2. c = omissionRecord e m2)"
  by (auto simp: textRules_def metadataMismatch_set omissionOf_def Let_def split: if_splits)

lemma analyze_elems:
  assumes "c \<in> set (analyzeContradictionsOnce env rs es)"
  shows "(\<exists>a \<in> set es. \<exists>b \<in> set es. c = driftRecord a b)
       \<or> (\<exists>e \<in> set es. \<exists>ts. c = mismatchRecord env e ts)
       \<or> (\<exists>e \<in> set es. \<exists>m2. c = omissionRecord e m2)"
proof -
  from assms have "c \<in> set (pairLoop (allEvidenceInScope rs es))
      \<or> (\<exists>e \<in> set (allEvidenceInScope rs es). c \<in> set (textRules env (allEvidenceInScope rs es) e))"
    by (auto simp: analyzeContradictionsOnce_def Let_def)
  then show ?thesis
  proof
    assume "c \<in> set (pairLoop (allEvidenceInScope rs es))"
    from pairLoop_elems[OF this] scope_subset[of rs es] show ?thesis by blast
  next
    assume "\<exists>e \<in> set (allEvidenceInScope rs es). c \<in> set (textRules env (allEvidenceInScope rs es) e)"
    then obtain e where "e \<in> set (allEvidenceInScope rs es)"
      "c \<in> set (textRules env (allEvidenceInScope rs es) e)" by blast
    with textRules_elems[OF this(2)] scope_subset[of rs es] show ?thesis by blast
  qed
qed

lemma analyze_mm:
  "{c \<in> set (analyzeContradictionsOnce env rs es). c_type c = metadata_mismatch}
     = (\<Union>e \<in> {e \<in> set (allEvidenceInScope rs es). hasText e}.
          mismatchRecord env e ` futureDates env e)"
proof -
  have "{c \<in> set (analyzeContradictionsOnce env rs es). c_type c = metadata_mismatch}
      = (\<Union>e \<in> {e \<in> set (allEvidenceInScope rs es). hasText e}.
          {c \<in> set (textRules env (allEvidenceInScope rs es) e). c_type c = metadata_mismatch})"
    by (auto simp: analyzeContradictionsOnce_def Let_def dest: pairLoop_type)
  then show ?thesis unfolding textRules_mm .
qed

lemma futureDates_hasText: "ts \<in> futureDates env e \<Longrightarrow> hasText e"
  unfolding futureDates_def using mentionedDates_hasText by blast

lemma analyze_mm_of:
  assumes "e \<in> set (allEvidenceInScope rs es)"
  shows "{c \<in> set (analyzeContradictionsOnce env rs es).
            c_type c = metadata_mismatch \<and> c_sources c = [ev_id e]}
       = mismatchRecord env e ` futureDates env e"
proof (intro set_eqI iffI)
  fix c
  assume "c \<in> {c \<in> set (analyzeContradictionsOnce env rs es).
            c_type c = metadata_mismatch \<and> c_sources c = [ev_id e]}"
  then have c: "c \<in> {c \<in> set (analyzeContradictionsOnce env rs es). c_type c = metadata_mismatch}"
    and s: "c_sources c = [ev_id e]" by simp_all
  from c[unfolded analyze_mm] obtain e' ts where e': "e' \<in> set (allEvidenceInScope rs es)"
    and ts: "ts \<in> futureDates env e'" and r: "c = mismatchRecord env e' ts" by blast
  from s r have "ev_id e' = ev_id e" by (simp add: mismatchRecord_fields)
  with e' assms scope_distinct[of rs es] have "e' = e"
    by (meson distinct_map inj_onD)
  with ts r show "c \<in> mismatchRecord env e ` futureDates env e" by simp
next
  fix c
  assume "c \<in> mismatchRecord env e ` futureDates env e"
  then obtain ts where ts: "ts \<in> futureDates env e" and r: "c = mismatchRecord env e ts" by blast
  from futureDates_hasText[OF ts] assms ts r
  have "c \<in> (\<Union>e \<in> {e \<in> set (allEvidenceInScope rs es). hasText e}.
          mismatchRecord env e ` futureDates env e)" by blast
  then have "c \<in> {c \<in> set (analyzeContradictionsOnce env rs es). c_type c = metadata_mismatch}"
    unfolding analyze_mm .
  then show "c \<in> {c \<in> set (analyzeContradictionsOnce env rs es).
            c_type c = metadata_mismatch \<and> c_sources c = [ev_id e]}"
    using r by (simp add: mismatchRecord_fields)
qed


section \<open>The key identifies type, sorted sources and explanation\<close>

definition dedup :: "'a RawContradiction_scheme \<Rightarrow> ContradictionType \<times> string list \<times> string" where
  "dedup c = (c_type c, sort (c_sources c), c_explanation c)"

text \<open>The ids of evidence are UUIDs (\<open>crypto.randomUUID()\<close>), strings of 36 characters; a
  record of a pass has one source, or two when it is a cross-document drift.\<close>

definition raw_ok :: "'a RawContradiction_scheme \<Rightarrow> bool" where
  "raw_ok c = ((\<forall>s \<in> set (c_sources c). length s = 36)
     \<and> length (c_sources c) = (if c_type c = cross_doc_drift then 2 else 1))"

lemma key_of_dedup: "dedup a = dedup b \<Longrightarrow> key_of a = key_of b"
  by (simp add: dedup_def key_of_def)

lemma key_type: "key_of a = key_of b \<Longrightarrow> c_type a = c_type b"
  by (cases "c_type a"; cases "c_type b") (simp_all add: key_of_def type_name_def)

lemma join_length:
  "\<forall>s \<in> set xs. length s = L \<Longrightarrow>
     length (join sep xs) = length xs * L + (length xs - 1) * length sep"
  by (induction sep xs rule: join.induct) auto

lemma join_inj:
  "length xs = length ys \<Longrightarrow> \<forall>s \<in> set xs \<union> set ys. length s = L \<Longrightarrow>
     join sep xs = join sep ys \<Longrightarrow> xs = ys"
proof (induction xs ys rule: list_induct2)
  case Nil
  then show ?case by simp
next
  case (Cons x xs y ys)
  show ?case
  proof (cases xs)
    case Nil
    with Cons.hyps have "ys = []" by simp
    with Nil Cons.prems show ?thesis by simp
  next
    case xs: (Cons x2 xs')
    with Cons.hyps obtain y2 ys' where ys: "ys = y2 # ys'" by (cases ys) auto
    from Cons.prems(1) have l: "length x = length y" by simp
    from Cons.prems(2) have "x @ (sep @ join sep xs) = y @ (sep @ join sep ys)"
      unfolding xs ys by simp
    with l have "x = y" "join sep xs = join sep ys" by simp_all
    with Cons.IH Cons.prems(1) show ?thesis by simp
  qed
qed

lemma key_inj:
  assumes "raw_ok a" "raw_ok b" "key_of a = key_of b"
  shows "dedup a = dedup b"
proof -
  have t: "c_type a = c_type b" using assms(3) by (rule key_type)
  let ?sa = "sort (c_sources a)" and ?sb = "sort (c_sources b)"
  have la: "\<forall>s \<in> set ?sa. length s = 36" and lb: "\<forall>s \<in> set ?sb. length s = 36"
    using assms(1,2) by (simp_all add: raw_ok_def)
  have n: "length ?sa = length ?sb" using assms(1,2) t by (simp add: raw_ok_def)
  have "length (join ''-'' ?sa) = length (join ''-'' ?sb)"
    unfolding join_length[OF la] join_length[OF lb] n ..
  moreover have "join ''-'' ?sa @ (''-'' @ c_explanation a) = join ''-'' ?sb @ (''-'' @ c_explanation b)"
    using assms(3) unfolding key_of_def t by simp
  ultimately have j: "join ''-'' ?sa = join ''-'' ?sb" and x: "c_explanation a = c_explanation b"
    by simp_all
  from join_inj[OF n _ j] la lb have "?sa = ?sb" by blast
  with t x show ?thesis by (simp add: dedup_def)
qed

lemma analyze_raw_ok:
  assumes "\<forall>e \<in> set es. length (ev_id e) = 36" "c \<in> set (analyzeContradictionsOnce env rs es)"
  shows "raw_ok c"
  using analyze_elems[OF assms(2)] assms(1)
  by (auto simp: raw_ok_def driftRecord_fields mismatchRecord_fields omissionRecord_fields)

lemma passes_raw_ok:
  assumes "\<forall>e \<in> set evidence. length (ev_id e) = 36"
    "(k, c) \<in> set (passes n env rng reports evidence)"
  shows "raw_ok c"
proof -
  from passes_origin[OF assms(2)] obtain rs es where "mset es = mset evidence"
    "c \<in> set (analyzeContradictionsOnce env rs es)" by blast
  moreover from this(1) have "set es = set evidence" by (rule mset_eq_setD)
  ultimately show ?thesis using analyze_raw_ok assms(1) by blast
qed

lemma dedup_finalize: "dedup (finalize (k, c, n)) = dedup c"
  by (simp add: dedup_def finalize_fields)

lemma raw_ok_finalize: "raw_ok (finalize (k, c, n)) = raw_ok c"
  by (simp add: raw_ok_def finalize_fields)

lemma distinct_map_finer:
  assumes r: "\<And>a b. g a = g b \<Longrightarrow> h a = h b" and d: "distinct (map h xs)"
  shows "distinct (map g xs)"
proof -
  from d have dx: "distinct xs" and i: "inj_on h (set xs)" by (simp_all add: distinct_map)
  have "inj_on g (set xs)"
  proof (rule inj_onI)
    fix a b assume "a \<in> set xs" "b \<in> set xs" "g a = g b"
    with r[of a b] i show "a = b" by (simp add: inj_on_def)
  qed
  with dx show ?thesis by (simp add: distinct_map)
qed

lemma count_list_filter: "count_list (map f xs) k = length (filter (\<lambda>x. f x = k) xs)"
  by (induction xs) auto


lemma run_raw:
  assumes "c \<in> set (runContradictionAnalysis env rng reports evidence)"
  obtains raw n where "(key_of raw, raw) \<in> set (passes 3 env rng reports evidence)"
    "c = finalize (key_of raw, raw, n)"
proof -
  from assms obtain k raw n where e: "(k, raw, n) \<in> set (tally env rng reports evidence)"
    and c: "c = finalize (k, raw, n)" unfolding run_tally by auto
  from tally_key_of[OF e] c that show ?thesis by blast
qed

text \<open>
  C3. The result has exactly one record for each key that occurs in the three passes, and
  the tier of the record is the classification of the number of occurrences of its key: 3
  gives Verified, 2 Consensus, 0 or 1 Inconclusive. The key is the string built from the
  type, the sorted sources and the explanation; when the evidence ids are UUIDs it
  identifies that triple, so that the same holds with the triple in place of the string.
\<close>

theorem runContradictionAnalysis_one_record_per_key:
  "distinct (map key_of (runContradictionAnalysis env rng reports evidence))
   \<and> set (map key_of (runContradictionAnalysis env rng reports evidence))
       = set (map fst (passes 3 env rng reports evidence))
   \<and> (\<forall>c \<in> set (runContradictionAnalysis env rng reports evidence).
        c_verification c
          = classify (count_list (map fst (passes 3 env rng reports evidence)) (key_of c)))
   \<and> classify 3 = Verified_3_3 \<and> classify 2 = Consensus_2_3
   \<and> classify 1 = Inconclusive_1_3 \<and> classify 0 = Inconclusive_1_3
   \<and> ((\<forall>e \<in> set evidence. length (ev_id e) = 36) \<longrightarrow>
        distinct (map dedup (runContradictionAnalysis env rng reports evidence))
      \<and> dedup ` set (runContradictionAnalysis env rng reports evidence)
          = dedup ` snd ` set (passes 3 env rng reports evidence)
      \<and> (\<forall>c \<in> set (runContradictionAnalysis env rng reports evidence).
           c_verification c
             = classify (length (filter (\<lambda>x. dedup (snd x) = dedup c)
                                   (passes 3 env rng reports evidence)))))"
proof -
  let ?out = "runContradictionAnalysis env rng reports evidence"
  let ?all = "passes 3 env rng reports evidence"
  note s = run_key_tally[of env rng reports evidence]
  have ext: "distinct (map dedup ?out) \<and> dedup ` set ?out = dedup ` snd ` set ?all
      \<and> (\<forall>c \<in> set ?out. c_verification c
             = classify (length (filter (\<lambda>x. dedup (snd x) = dedup c) ?all)))"
    if u: "\<forall>e \<in> set evidence. length (ev_id e) = 36"
  proof (intro conjI ballI)
    from s have d: "distinct (map key_of ?out)" by (rule conjunct1)
    show "distinct (map dedup ?out)"
      by (rule distinct_map_finer[OF key_of_dedup d])
    have ok_all: "raw_ok r \<and> k = key_of r" if "(k, r) \<in> set ?all" for k r
      using passes_raw_ok[OF u that] passes_keys[OF that] by simp
    have from_all: "\<exists>r. (key_of r, r) \<in> set ?all \<and> dedup c = dedup r \<and> raw_ok c"
      if "c \<in> set ?out" for c
    proof -
      from that obtain raw n where r: "(key_of raw, raw) \<in> set ?all"
        and c: "c = finalize (key_of raw, raw, n)" by (rule run_raw)
      from ok_all[OF r] have "raw_ok c" unfolding c by (simp add: raw_ok_finalize)
      with r c show ?thesis by (auto simp: dedup_finalize)
    qed
    show "dedup ` set ?out = dedup ` snd ` set ?all"
    proof (intro set_eqI iffI)
      fix d assume "d \<in> dedup ` set ?out"
      then obtain c where c: "c \<in> set ?out" "d = dedup c" by blast
      from from_all[OF c(1)] obtain r where "(key_of r, r) \<in> set ?all" "dedup c = dedup r"
        by blast
      then have "dedup r \<in> dedup ` snd ` set ?all" by force
      then show "d \<in> dedup ` snd ` set ?all" using c(2) \<open>dedup c = dedup r\<close> by simp
    next
      fix d assume "d \<in> dedup ` snd ` set ?all"
      then obtain k r where r: "(k, r) \<in> set ?all" "d = dedup r" by force
      from ok_all[OF r(1)] have okr: "raw_ok r" "k = key_of r" by simp_all
      from r(1) have "fst (k, r) \<in> fst ` set ?all" by (rule imageI)
      then have "key_of r \<in> set (map key_of ?out)" using s okr(2) by simp
      then obtain c where c: "c \<in> set ?out" "key_of c = key_of r" by auto
      from from_all[OF c(1)] have "raw_ok c" by blast
      from key_inj[OF this okr(1) c(2)] have "d = dedup c" using r(2) by simp
      with c(1) show "d \<in> dedup ` set ?out" by (rule image_eqI[rotated])
    qed
    fix c assume c: "c \<in> set ?out"
    from from_all[OF c] have okc: "raw_ok c" by blast
    have "filter (\<lambda>x. fst x = key_of c) ?all = filter (\<lambda>x. dedup (snd x) = dedup c) ?all"
    proof (rule filter_cong[OF refl])
      fix x assume x: "x \<in> set ?all"
      obtain k r where kr: "x = (k, r)" by (cases x)
      from ok_all[OF x[unfolded kr]] have okr: "raw_ok r" "k = key_of r" by simp_all
      have "(key_of r = key_of c) = (dedup r = dedup c)"
        using key_inj[OF okr(1) okc] key_of_dedup[of r c] by blast
      then show "(fst x = key_of c) = (dedup (snd x) = dedup c)"
        unfolding kr using okr(2) by simp
    qed
    moreover from s c have "c_verification c = classify (count_list (map fst ?all) (key_of c))"
      by blast
    ultimately show "c_verification c
        = classify (length (filter (\<lambda>x. dedup (snd x) = dedup c) ?all))"
      by (simp add: count_list_filter)
  qed
  from s ext show ?thesis by blast
qed

lemma run_mismatch_origin:
  assumes c: "c \<in> set (runContradictionAnalysis env rng reports evidence)"
    and t: "c_type c = metadata_mismatch"
  shows "\<exists>e \<in> set evidence. \<exists>t pre d post ts.
           c_sources c = [ev_id e] \<and> ev_ocrText e = Some t
         \<and> d \<in> set (mentionedDates t) \<and> t = pre @ d @ post \<and> slash_date d
         \<and> Date_parse env d = Some ts \<and> ts > ev_createdAt e
         \<and> c_explanation c = ''The document content mentions a future date (''
              @ toLocaleDateString env ts @ '') relative to its creation date (''
              @ toLocaleDateString env (ev_createdAt e) @ '').''"
proof -
  from run_origin[OF c] obtain raw rs es n where p: "mset es = mset evidence"
    and r: "raw \<in> set (analyzeContradictionsOnce env rs es)"
    and f: "c = finalize (key_of raw, raw, n)" by blast
  from t f have "c_type raw = metadata_mismatch" by (simp add: finalize_fields)
  with r have "raw \<in> {c \<in> set (analyzeContradictionsOnce env rs es). c_type c = metadata_mismatch}"
    by simp
  then obtain e ts where e: "e \<in> set (allEvidenceInScope rs es)"
    and ts: "ts \<in> futureDates env e" and raw: "raw = mismatchRecord env e ts"
    unfolding analyze_mm by blast
  from e scope_subset[of rs es] p have ev: "e \<in> set evidence"
    using mset_eq_setD by blast
  from ts obtain t d where o: "ev_ocrText e = Some t" and d: "d \<in> set (mentionedDates t)"
    and pa: "Date_parse env d = Some ts" and gt: "ts > ev_createdAt e"
    unfolding futureDates_def by blast
  from mentionedDates_slash[OF d] obtain pre post where sd: "slash_date d" "t = pre @ d @ post"
    by blast
  have src: "c_sources c = [ev_id e]" unfolding f raw
    by (simp add: finalize_fields mismatchRecord_fields)
  have ex: "c_explanation c = ''The document content mentions a future date (''
              @ toLocaleDateString env ts @ '') relative to its creation date (''
              @ toLocaleDateString env (ev_createdAt e) @ '').''"
    unfolding f raw by (simp add: finalize_fields mismatchRecord_fields)
  from ev src o d sd pa gt ex show ?thesis by blast
qed

text \<open>
  C10. Every metadata-mismatch contradiction of a run comes from a date in the numeric
  slash form month/day/four-digit year: it cites an evidence item whose extracted text
  contains such a date, which the detector matched, which parses to a time after the
  creation of the item and which is the date its explanation prints. Hence an item none of
  whose slash-form dates parses after its creation is cited by no metadata-mismatch
  contradiction, whatever other dates its text mentions; a date written in another way,
  such as \<open>2027-03-14\<close> or \<open>14 March 2027\<close>, is not among the dates the detector reads.
\<close>

theorem metadata_mismatch_only_slash_dates:
  "(\<forall>c \<in> set (runContradictionAnalysis env rng reports evidence).
      c_type c = metadata_mismatch \<longrightarrow>
      (\<exists>e \<in> set evidence. \<exists>t pre d post ts.
           c_sources c = [ev_id e] \<and> ev_ocrText e = Some t
         \<and> d \<in> set (mentionedDates t) \<and> t = pre @ d @ post \<and> slash_date d
         \<and> Date_parse env d = Some ts \<and> ts > ev_createdAt e
         \<and> c_explanation c = ''The document content mentions a future date (''
              @ toLocaleDateString env ts @ '') relative to its creation date (''
              @ toLocaleDateString env (ev_createdAt e) @ '').''))
   \<and> (distinct (map ev_id evidence) \<longrightarrow>
        (\<forall>e \<in> set evidence.
           (\<forall>t pre d post ts. ev_ocrText e = Some t \<and> t = pre @ d @ post \<and> slash_date d
                \<and> Date_parse env d = Some ts \<longrightarrow> ts \<le> ev_createdAt e) \<longrightarrow>
           \<not> (\<exists>c \<in> set (runContradictionAnalysis env rng reports evidence).
                 c_type c = metadata_mismatch \<and> c_sources c = [ev_id e])))
   \<and> mentionedDates ''2027-03-14'' = []
   \<and> mentionedDates ''14 March 2027'' = []"
proof (intro conjI ballI impI)
  fix c
  assume "c \<in> set (runContradictionAnalysis env rng reports evidence)"
    "c_type c = metadata_mismatch"
  then show "\<exists>e \<in> set evidence. \<exists>t pre d post ts.
           c_sources c = [ev_id e] \<and> ev_ocrText e = Some t
         \<and> d \<in> set (mentionedDates t) \<and> t = pre @ d @ post \<and> slash_date d
         \<and> Date_parse env d = Some ts \<and> ts > ev_createdAt e
         \<and> c_explanation c = ''The document content mentions a future date (''
              @ toLocaleDateString env ts @ '') relative to its creation date (''
              @ toLocaleDateString env (ev_createdAt e) @ '').''"
    by (rule run_mismatch_origin)
next
  fix e
  assume d: "distinct (map ev_id evidence)" and e: "e \<in> set evidence"
    and h: "\<forall>t pre d post ts. ev_ocrText e = Some t \<and> t = pre @ d @ post \<and> slash_date d
                \<and> Date_parse env d = Some ts \<longrightarrow> ts \<le> ev_createdAt e"
  show "\<not> (\<exists>c \<in> set (runContradictionAnalysis env rng reports evidence).
                 c_type c = metadata_mismatch \<and> c_sources c = [ev_id e])"
  proof
    assume "\<exists>c \<in> set (runContradictionAnalysis env rng reports evidence).
                 c_type c = metadata_mismatch \<and> c_sources c = [ev_id e]"
    then obtain c where c: "c \<in> set (runContradictionAnalysis env rng reports evidence)"
      "c_type c = metadata_mismatch" "c_sources c = [ev_id e]" by blast
    from run_mismatch_origin[OF c(1,2)] obtain e' t pre dd post ts
      where e': "e' \<in> set evidence" "c_sources c = [ev_id e']" "ev_ocrText e' = Some t"
        "t = pre @ dd @ post" "slash_date dd" "Date_parse env dd = Some ts"
        "ts > ev_createdAt e'" by blast
    from c(3) e'(2) have "ev_id e' = ev_id e" by simp
    with d e e'(1) have "e' = e" by (meson distinct_map inj_onD)
    with e'(3-7) h have "ts \<le> ev_createdAt e" "ts > ev_createdAt e" by blast+
    then show False by simp
  qed
next
  show "mentionedDates ''2027-03-14'' = []" by code_simp
  show "mentionedDates ''14 March 2027'' = []" by code_simp
qed


section \<open>Metadata mismatches of one evidence item\<close>

lemma sort_single: "sort xs = [a] \<Longrightarrow> xs = [a]"
proof -
  assume s: "sort xs = [a]"
  then have "length xs = 1" "set xs = {a}"
    by (metis length_sort length_Cons list.size(3) One_nat_def, metis set_sort list.set(1) list.simps(15))
  then show ?thesis by (cases xs) auto
qed

lemma key_of_mismatch:
  "key_of (mismatchRecord env e ts)
     = (''metadata_mismatch-'' @ ev_id e @ ''-The document content mentions a future date ('')
       @ toLocaleDateString env ts
       @ ('') relative to its creation date ('' @ toLocaleDateString env (ev_createdAt e) @ '').'')"
  by (simp add: key_of_def mismatchRecord_fields type_name_def)

lemma finite_futureDates: "finite (futureDates env e)"
proof (cases "ev_ocrText e")
  case None
  then show ?thesis by (simp add: futureDates_def)
next
  case (Some t)
  have "futureDates env e \<subseteq> (\<lambda>d. the (Date_parse env d)) ` set (mentionedDates t)"
    unfolding futureDates_def using Some by force
  then show ?thesis by (rule finite_subset) simp
qed

lemma run_mismatches:
  assumes d: "distinct (map ev_id evidence)"
    and u: "\<forall>x \<in> set evidence. length (ev_id x) = 36"
    and s: "e \<in> set (allEvidenceInScope reports evidence)"
  shows "length (filter (\<lambda>c. c_type c = metadata_mismatch \<and> c_sources c = [ev_id e])
            (runContradictionAnalysis env rng reports evidence))
       = card (toLocaleDateString env ` futureDates env e)"
    and "futureDates env e \<noteq> {} \<Longrightarrow>
       \<exists>c \<in> set (runContradictionAnalysis env rng reports evidence).
          c_type c = metadata_mismatch \<and> c_sources c = [ev_id e]"
    and "futureDates env e = {} \<Longrightarrow>
       \<not> (\<exists>c \<in> set (runContradictionAnalysis env rng reports evidence).
          c_type c = metadata_mismatch \<and> c_sources c = [ev_id e])"
proof -
  let ?P = "\<lambda>c. c_type c = metadata_mismatch \<and> c_sources c = [ev_id e]"
  let ?out = "runContradictionAnalysis env rng reports evidence"
  let ?all = "passes 3 env rng reports evidence"
  let ?tally = "tally env rng reports evidence"
  let ?F = "futureDates env e"
  let ?R = "mismatchRecord env e ` ?F"
  let ?K = "key_of ` ?R"
  have pass: "{c \<in> set (analyzeContradictionsOnce env rs es). ?P c} = ?R"
    if "mset rs = mset reports" "mset es = mset evidence" for rs es
  proof -
    from scope_set_perm[OF d that] s have "e \<in> set (allEvidenceInScope rs es)" by simp
    then show ?thesis by (rule analyze_mm_of)
  qed
  have all_R: "?P r = (r \<in> ?R)" if "(k, r) \<in> set ?all" for k r
  proof -
    from passes_origin[OF that] obtain rs es where p: "mset rs = mset reports"
      "mset es = mset evidence" and r: "r \<in> set (analyzeContradictionsOnce env rs es)" by blast
    have PR: "?P x" if "x \<in> ?R" for x using that by (auto simp: mismatchRecord_fields)
    from pass[OF p] r PR show ?thesis by blast
  qed
  have R_all: "(key_of r, r) \<in> set ?all" if "r \<in> ?R" for r
  proof -
    have "\<exists>rs es. mset rs = mset reports \<and> mset es = mset evidence
        \<and> (\<forall>c \<in> set (analyzeContradictionsOnce env rs es). (key_of c, c) \<in> set ?all)"
      unfolding numeral_3_eq_3 by (rule passes_first)
    then obtain rs es
      where p: "mset rs = mset reports" "mset es = mset evidence"
        and i: "\<forall>c \<in> set (analyzeContradictionsOnce env rs es). (key_of c, c) \<in> set ?all"
      by blast
    from pass[OF p] that have "r \<in> set (analyzeContradictionsOnce env rs es)" by blast
    with i show ?thesis by blast
  qed
  have entry: "?P (finalize x) = (fst x \<in> ?K)" if x: "x \<in> set ?tally" for x
  proof -
    obtain k r n where kr: "x = (k, r, n)" by (cases x)
    from tally_key_of[OF x[unfolded kr]] have k: "k = key_of r" and a: "(k, r) \<in> set ?all"
      by blast+
    have "?P (finalize x) = ?P r" unfolding kr by (simp add: finalize_fields)
    also have "\<dots> = (r \<in> ?R)" using all_R[OF a] .
    also have "\<dots> = (k \<in> ?K)"
    proof
      assume "r \<in> ?R" then show "k \<in> ?K" unfolding k by (rule imageI)
    next
      assume "k \<in> ?K"
      then obtain r0 where r0: "r0 \<in> ?R" "key_of r = key_of r0" unfolding k by blast
      from passes_raw_ok[OF u a] passes_raw_ok[OF u R_all[OF r0(1)]] r0(2)
      have "dedup r = dedup r0" by (rule key_inj)
      moreover from r0(1) have "c_type r0 = metadata_mismatch" "c_sources r0 = [ev_id e]"
        by (auto simp: mismatchRecord_fields)
      ultimately have "c_type r = metadata_mismatch" "sort (c_sources r) = [ev_id e]"
        by (simp_all add: dedup_def)
      then have "?P r" using sort_single by blast
      then show "r \<in> ?R" using all_R[OF a] by simp
    qed
    finally show ?thesis unfolding kr by simp
  qed
  have dk: "distinct (map fst ?tally)" unfolding tally_def by (rule tally_distinct) simp
  have sub: "?K \<subseteq> set (map fst ?tally)"
  proof
    fix k assume "k \<in> ?K"
    then obtain r where "r \<in> ?R" "k = key_of r" by blast
    with R_all[of r] have "k \<in> fst ` set ?all" by force
    then show "k \<in> set (map fst ?tally)" unfolding tally_def tally_keys by simp
  qed
  have "length (filter ?P ?out) = length (filter (\<lambda>x. ?P (finalize x)) ?tally)"
    unfolding run_tally filter_map by (simp add: comp_def)
  also have "\<dots> = length (filter (\<lambda>x. fst x \<in> ?K) ?tally)"
    by (rule arg_cong[where f = length], rule filter_cong[OF refl], rule entry)
  also have "\<dots> = length (filter (\<lambda>k. k \<in> ?K) (map fst ?tally))"
    unfolding filter_map by (simp add: comp_def)
  also have "\<dots> = card ?K"
    using distinct_length_filter[OF dk, of "\<lambda>k. k \<in> ?K"] sub by (simp add: Int_absorb2)
  also have "\<dots> = card (toLocaleDateString env ` ?F)"
  proof -
    let ?g = "\<lambda>x. (''metadata_mismatch-'' @ ev_id e @ ''-The document content mentions a future date ('')
       @ x @ ('') relative to its creation date (''
               @ toLocaleDateString env (ev_createdAt e) @ '').'')"
    have "?K = ?g ` (toLocaleDateString env ` ?F)"
      unfolding image_image key_of_mismatch ..
    moreover have "inj_on ?g (toLocaleDateString env ` ?F)" by (rule inj_onI) simp
    ultimately show ?thesis by (simp only: card_image)
  qed
  finally show "length (filter ?P ?out) = card (toLocaleDateString env ` ?F)" .
  {
    assume "?F \<noteq> {}"
    then obtain ts where "ts \<in> ?F" by blast
    then have kK: "key_of (mismatchRecord env e ts) \<in> ?K" by blast
    with sub have "key_of (mismatchRecord env e ts) \<in> fst ` set ?tally" by auto
    then obtain x where x: "x \<in> set ?tally" "fst x = key_of (mismatchRecord env e ts)"
      by (metis imageE)
    from entry[OF x(1)] kK x(2) have "?P (finalize x)" by simp
    moreover from x(1) have "finalize x \<in> set ?out" unfolding run_tally by simp
    ultimately show "\<exists>c \<in> set ?out. ?P c" by blast
  }
  {
    assume e: "?F = {}"
    show "\<not> (\<exists>c \<in> set ?out. ?P c)"
    proof
      assume "\<exists>c \<in> set ?out. ?P c"
      then obtain x where x: "x \<in> set ?tally" "?P (finalize x)" unfolding run_tally by auto
      from entry[OF x(1)] x(2) e show False by simp
    qed
  }
qed


section \<open>A run on one contract\<close>

definition contract :: Evidence where
  "contract = demo_evidence ''5f0c1a2e-0000-4000-8000-00000000000c'' ''contract.pdf'' ''cc''
     1780272000000 (Some ''5/1/2026: due 1/1/2030 or 1/2/2030'')"

definition report_c :: Report where
  "report_c = demo_report ''r3'' 3 [''5f0c1a2e-0000-4000-8000-00000000000c'']"


lemma contract_fields:
  "ev_id contract = ''5f0c1a2e-0000-4000-8000-00000000000c''"
  "ev_ocrText contract = Some ''5/1/2026: due 1/1/2030 or 1/2/2030''"
  "ev_createdAt contract = 1780272000000"
  by (simp_all add: contract_def demo_evidence_def)

lemma contract_dates:
  "mentionedDates ''5/1/2026: due 1/1/2030 or 1/2/2030''
     = [''5/1/2026'', ''1/1/2030'', ''1/2/2030'']"
  by code_simp

lemma contract_references:
  "match_all True omissionRegex ''5/1/2026: due 1/1/2030 or 1/2/2030'' 0 = []"
  by code_simp

lemma contract_hasText: "hasText contract"
  by code_simp

lemma contract_scope: "allEvidenceInScope [report_c] [contract] = [contract]"
  by (simp add: allEvidenceInScope_def Map_of_def addToScope_def contract_fields
      report_c_def demo_report_def)

lemma contract_parse:
  "Date_parse demo_env ''5/1/2026'' = Some 1777593600000"
  "Date_parse demo_env ''1/1/2030'' = Some 1893456000000"
  "Date_parse demo_env ''1/2/2030'' = Some 1893542400000"
  by (simp_all add: demo_env_def)

lemma contract_pass:
  "analyzeContradictionsOnce demo_env [report_c] [contract]
     = [mismatchRecord demo_env contract 1893456000000,
        mismatchRecord demo_env contract 1893542400000]"
  by (simp add: analyzeContradictionsOnce_def contract_scope pairLoop_def contract_hasText
      textRules_def contract_fields contract_dates contract_references metadataMismatch_def
      contract_parse)

lemma shuffle_single: "shuffle rng [a] = ([a], rng)"
  by (simp add: shuffle_def)

lemma contract_keys:
  "key_of (mismatchRecord demo_env contract 1893456000000)
     \<noteq> key_of (mismatchRecord demo_env contract 1893542400000)"
  by (simp add: key_of_mismatch demo_env_def)

lemma contract_passes:
  "passes 3 demo_env rng [report_c] [contract]
     = [(key_of (mismatchRecord demo_env contract 1893456000000),
           mismatchRecord demo_env contract 1893456000000),
        (key_of (mismatchRecord demo_env contract 1893542400000),
           mismatchRecord demo_env contract 1893542400000),
        (key_of (mismatchRecord demo_env contract 1893456000000),
           mismatchRecord demo_env contract 1893456000000),
        (key_of (mismatchRecord demo_env contract 1893542400000),
           mismatchRecord demo_env contract 1893542400000),
        (key_of (mismatchRecord demo_env contract 1893456000000),
           mismatchRecord demo_env contract 1893456000000),
        (key_of (mismatchRecord demo_env contract 1893542400000),
           mismatchRecord demo_env contract 1893542400000)]"
  by (simp add: numeral_3_eq_3 shuffle_single contract_pass)

lemma contract_run:
  "runContradictionAnalysis demo_env rng [report_c] [contract]
     = [finalize (key_of (mismatchRecord demo_env contract 1893456000000),
           mismatchRecord demo_env contract 1893456000000, 3),
        finalize (key_of (mismatchRecord demo_env contract 1893542400000),
           mismatchRecord demo_env contract 1893542400000, 3)]"
  unfolding runContradictionAnalysis_def contract_passes Let_def
  using contract_keys by (simp add: eval_nat_numeral)

lemma futureDates_text:
  "ev_ocrText e = Some t \<Longrightarrow>
     futureDates env e
       = {ts. \<exists>d \<in> set (mentionedDates t). Date_parse env d = Some ts \<and> ts > ev_createdAt e}"
  by (auto simp: futureDates_def)

lemma contract_future:
  "futureDates demo_env contract = {1893456000000, 1893542400000}"
proof -
  have "futureDates demo_env contract
      = {ts. (Some 1777593600000 = Some ts \<or> Some 1893456000000 = Some ts
              \<or> Some 1893542400000 = Some ts) \<and> ts > 1780272000000}"
    unfolding futureDates_text[OF contract_fields(2)] contract_dates contract_fields(3)
    using contract_parse by (intro Collect_cong) (simp add: conj_disj_distribR)
  also have "\<dots> = {1893456000000, 1893542400000}"
    by (intro set_eqI) (simp, linarith)
  finally show ?thesis .
qed


theorem runContradictionAnalysis_one_record_per_key_witness:
  "length (ev_id statement_v1) = 36 \<and> length (ev_id statement_v2) = 36
   \<and> finalize (key_of (driftRecord statement_v2 statement_v1), driftRecord statement_v2 statement_v1, 2)
     \<in> set (runContradictionAnalysis demo_env keep_first [report_v1, report_v2] [statement_v1, statement_v2])
   \<and> count_list (map fst (passes 3 demo_env keep_first [report_v1, report_v2] [statement_v1, statement_v2]))
        (key_of (driftRecord statement_v2 statement_v1)) = 2
   \<and> c_verification (finalize (key_of (driftRecord statement_v2 statement_v1),
        driftRecord statement_v2 statement_v1, 2)) = Consensus_2_3
   \<and> distinct (map dedup
        (runContradictionAnalysis demo_env keep_first [report_v1, report_v2] [statement_v1, statement_v2]))"
proof -
  have u: "\<forall>e \<in> set [statement_v1, statement_v2]. length (ev_id e) = 36"
    by (simp add: statement_fields)
  from runContradictionAnalysis_one_record_per_key[of demo_env keep_first "[report_v1, report_v2]"
      "[statement_v1, statement_v2]"] u
  have d: "distinct (map dedup
        (runContradictionAnalysis demo_env keep_first [report_v1, report_v2] [statement_v1, statement_v2]))"
    by blast
  from u d statement_keys show ?thesis
    by (simp add: statement_run_keep_first statement_passes_keep_first finalize_fields classify_def
        statement_fields)
qed

text \<open>
  C6 fails as stated: with a single item in scope, the detectors that read the text of one
  item still run, so the result need not be empty.
\<close>

theorem single_item_scope_nonempty_result:
  "length (allEvidenceInScope [report_c] [contract]) = 1
   \<and> map c_type (runContradictionAnalysis demo_env always_swap [report_c] [contract])
       = [metadata_mismatch, metadata_mismatch]"
  by (simp add: contract_scope contract_run finalize_fields mismatchRecord_fields)

theorem runContradictionAnalysis_small_scope_witness:
  "allEvidenceInScope [] [contract] = []
   \<and> runContradictionAnalysis demo_env always_swap [] [contract] = []
   \<and> length (allEvidenceInScope [report_c] [contract]) < 2
   \<and> cross_doc_drift
         \<notin> set (map c_type (runContradictionAnalysis demo_env always_swap [report_c] [contract]))
   \<and> runContradictionAnalysis demo_env always_swap [report_c] [contract] \<noteq> []"
proof -
  have e: "allEvidenceInScope [] [contract] = []" by (simp add: allEvidenceInScope_def)
  have l: "length (allEvidenceInScope [report_c] [contract]) < 2" by (simp add: contract_scope)
  from runContradictionAnalysis_small_scope[of "[]" "[contract]" demo_env always_swap] e
    runContradictionAnalysis_small_scope[of "[report_c]" "[contract]" demo_env always_swap] l
  show ?thesis by (simp add: contract_run finalize_fields mismatchRecord_fields)
qed

text \<open>
  C7 fails as stated: a text that mentions two different dates after the creation of the
  evidence gives two metadata-mismatch contradictions citing it, not one.
\<close>

theorem two_future_dates_two_mismatches:
  "ev_ocrText contract = Some ''5/1/2026: due 1/1/2030 or 1/2/2030''
   \<and> ''1/1/2030'' \<in> set (mentionedDates ''5/1/2026: due 1/1/2030 or 1/2/2030'')
   \<and> Date_parse demo_env ''1/1/2030'' = Some 1893456000000
   \<and> ev_createdAt contract < 1893456000000
   \<and> length (filter (\<lambda>c. c_type c = metadata_mismatch \<and> c_sources c = [ev_id contract])
        (runContradictionAnalysis demo_env always_swap [report_c] [contract])) = 2"
  by (simp add: contract_fields contract_dates contract_parse contract_run finalize_fields
      mismatchRecord_fields)

text \<open>
  C7, amended. For an evidence item in scope (the evidence ids being distinct UUIDs), the
  number of metadata-mismatch contradictions citing it is the number of different dates,
  as printed in the explanation, among the dates of the slash form in its extracted text
  that parse to a time strictly after its creation: at least one when there is such a
  date, exactly one when there is only one, and none when every such date is on or before
  the creation time.
\<close>

theorem metadata_mismatch_per_future_date:
  assumes "distinct (map ev_id evidence)"
    and "\<forall>x \<in> set evidence. length (ev_id x) = 36"
    and "e \<in> set (allEvidenceInScope reports evidence)"
  shows "length (filter (\<lambda>c. c_type c = metadata_mismatch \<and> c_sources c = [ev_id e])
            (runContradictionAnalysis env rng reports evidence))
         = card (toLocaleDateString env ` futureDates env e)
       \<and> (futureDates env e \<noteq> {} \<longrightarrow>
            (\<exists>c \<in> set (runContradictionAnalysis env rng reports evidence).
               c_type c = metadata_mismatch \<and> c_sources c = [ev_id e]))
       \<and> (futureDates env e = {} \<longrightarrow>
            \<not> (\<exists>c \<in> set (runContradictionAnalysis env rng reports evidence).
               c_type c = metadata_mismatch \<and> c_sources c = [ev_id e]))"
  using run_mismatches[OF assms, of env rng] by blast

theorem metadata_mismatch_per_future_date_witness:
  "distinct (map ev_id [contract])
   \<and> length (ev_id contract) = 36
   \<and> contract \<in> set (allEvidenceInScope [report_c] [contract])
   \<and> futureDates demo_env contract = {1893456000000, 1893542400000}
   \<and> length (filter (\<lambda>c. c_type c = metadata_mismatch \<and> c_sources c = [ev_id contract])
        (runContradictionAnalysis demo_env always_swap [report_c] [contract]))
       = card (toLocaleDateString demo_env ` {1893456000000, 1893542400000})
   \<and> statement_v1 \<in> set (allEvidenceInScope [report_v1, report_v2] [statement_v1, statement_v2])
   \<and> futureDates demo_env statement_v1 = {}
   \<and> \<not> (\<exists>c \<in> set (runContradictionAnalysis demo_env always_swap [report_v1, report_v2]
                        [statement_v1, statement_v2]).
          c_type c = metadata_mismatch \<and> c_sources c = [ev_id statement_v1])"
proof -
  have a: "distinct (map ev_id [contract])" "\<forall>x \<in> set [contract]. length (ev_id x) = 36"
    "contract \<in> set (allEvidenceInScope [report_c] [contract])"
    by (simp_all add: contract_fields contract_scope)
  have b: "distinct (map ev_id [statement_v1, statement_v2])"
    "\<forall>x \<in> set [statement_v1, statement_v2]. length (ev_id x) = 36"
    "statement_v1 \<in> set (allEvidenceInScope [report_v1, report_v2] [statement_v1, statement_v2])"
    by (simp_all add: statement_fields statement_scope)
  have f: "futureDates demo_env statement_v1 = {}"
    by (simp add: futureDates_def statement_fields)
  from metadata_mismatch_per_future_date[OF a, of demo_env always_swap]
    metadata_mismatch_per_future_date[OF b, of demo_env always_swap] a b f contract_future
  show ?thesis by simp
qed

text \<open>A note created after the dates of the examples, whose text mentions an earlier date
  in the slash form and a later one in the ISO form.\<close>

definition iso_note :: Evidence where
  "iso_note = demo_evidence ''5f0c1a2e-0000-4000-8000-00000000000d'' ''note.pdf'' ''dd''
     1900000000000 (Some ''Signed 1/1/2030. Due 2031-03-14.'')"

definition report_n :: Report where
  "report_n = demo_report ''r4'' 4 [''5f0c1a2e-0000-4000-8000-00000000000d'']"

lemma demo_env_dates: "Date_parse demo_env d = Some ts \<Longrightarrow> ts \<le> 1900000000000"
  by (auto simp: demo_env_def split: if_splits)

theorem metadata_mismatch_only_slash_dates_witness:
  "finalize (key_of (mismatchRecord demo_env contract 1893456000000),
       mismatchRecord demo_env contract 1893456000000, 3)
     \<in> set (runContradictionAnalysis demo_env always_swap [report_c] [contract])
   \<and> c_type (finalize (key_of (mismatchRecord demo_env contract 1893456000000),
       mismatchRecord demo_env contract 1893456000000, 3)) = metadata_mismatch
   \<and> (\<exists>e \<in> set [contract]. \<exists>t pre d post ts.
         c_sources (finalize (key_of (mismatchRecord demo_env contract 1893456000000),
            mismatchRecord demo_env contract 1893456000000, 3)) = [ev_id e]
         \<and> ev_ocrText e = Some t \<and> d \<in> set (mentionedDates t) \<and> t = pre @ d @ post
         \<and> slash_date d \<and> Date_parse demo_env d = Some ts \<and> ts > ev_createdAt e)
   \<and> distinct (map ev_id [iso_note])
   \<and> ev_ocrText iso_note = Some ''Signed 1/1/2030. Due 2031-03-14.''
   \<and> ev_createdAt iso_note = 1900000000000
   \<and> Date_parse demo_env ''1/1/2030'' = Some 1893456000000
   \<and> \<not> (\<exists>c \<in> set (runContradictionAnalysis demo_env always_swap [report_n] [iso_note]).
          c_type c = metadata_mismatch \<and> c_sources c = [ev_id iso_note])"
proof -
  let ?c = "finalize (key_of (mismatchRecord demo_env contract 1893456000000),
       mismatchRecord demo_env contract 1893456000000, 3)"
  have m: "?c \<in> set (runContradictionAnalysis demo_env always_swap [report_c] [contract])"
    by (simp add: contract_run)
  have t: "c_type ?c = metadata_mismatch" by (simp add: finalize_fields mismatchRecord_fields)
  from metadata_mismatch_only_slash_dates[of demo_env always_swap "[report_c]" "[contract]"] m t
  have one: "\<exists>e \<in> set [contract]. \<exists>t pre d post ts.
         c_sources ?c = [ev_id e]
         \<and> ev_ocrText e = Some t \<and> d \<in> set (mentionedDates t) \<and> t = pre @ d @ post
         \<and> slash_date d \<and> Date_parse demo_env d = Some ts \<and> ts > ev_createdAt e"
    by blast
  have f: "distinct (map ev_id [iso_note])"
    "ev_ocrText iso_note = Some ''Signed 1/1/2030. Due 2031-03-14.''"
    "ev_createdAt iso_note = 1900000000000"
    by (simp_all add: iso_note_def demo_evidence_def)
  have h: "\<forall>t pre d post ts. ev_ocrText iso_note = Some t \<and> t = pre @ d @ post \<and> slash_date d
                \<and> Date_parse demo_env d = Some ts \<longrightarrow> ts \<le> ev_createdAt iso_note"
    unfolding f(3) using demo_env_dates by blast
  have i: "iso_note \<in> set [iso_note]" by simp
  from metadata_mismatch_only_slash_dates[of demo_env always_swap "[report_n]" "[iso_note]"]
    f(1) i h
  have two: "\<not> (\<exists>c \<in> set (runContradictionAnalysis demo_env always_swap [report_n] [iso_note]).
          c_type c = metadata_mismatch \<and> c_sources c = [ev_id iso_note])"
    by blast
  from m t one f contract_parse(2) two show ?thesis by blast
qed

end
